theory Spec2Isabelle
  imports Main "HOL-Library.Multiset"
begin

section \<open>Runtime values\<close>

text \<open>
  The utilities are TypeScript, so the declared parameter types are erased when the code
  runs and a caller can hand over any value. A value is modelled by its runtime kind. The
  elements of an array have the type \<open>'a\<close> that the TypeScript signature declares for
  them (\<open>string\<close> for \<open>orderedList\<close>, an option entry for \<open>deduplicateOptions\<close>).
  \<open>JObject\<close> is an ordinary non-array object: it has no \<^verbatim>\<open>filter\<close> method and is
  not iterable (typed arrays and objects that bring their own \<^verbatim>\<open>filter\<close> are not among
  these values). \<open>JArray\<close> is a plain array. \<open>JRevokedProxy\<close> is a \<^verbatim>\<open>Proxy\<close> that
  has been revoked, the one kind of value on which \<^verbatim>\<open>Array.isArray\<close> throws; its flag
  says whether the target of the proxy was callable. The payloads of \<open>JNumber\<close>,
  \<open>JBigInt\<close>, \<open>JSymbol\<close>, \<open>JFunction\<close> and \<open>JObject\<close> only tell values apart:
  the code below never inspects them, only the kind of the value.
\<close>

datatype 'a jsval =
    JUndefined
  | JNull
  | JBoolean bool
  | JNumber int
  | JBigInt int
  | JString string
  | JSymbol nat
  | JFunction nat
  | JObject nat
  | JArray "'a list"
  | JRevokedProxy bool

datatype js_error = TypeError | SyntaxError

text \<open>
  \<^verbatim>\<open>Array.isArray(v)\<close>: \<open>true\<close> on an array, a \<open>TypeError\<close> on a revoked proxy,
  \<open>false\<close> on everything else.
\<close>

fun isArray :: "'a jsval \<Rightarrow> js_error + bool" where
  "isArray (JArray xs) = Inr True"
| "isArray (JRevokedProxy callable) = Inl TypeError"
| "isArray v = Inr False"

text \<open>
  \<^verbatim>\<open>!a\<close> and \<^verbatim>\<open>a && b\<close> on boolean operands whose evaluation can throw: an error
  of the left operand is the error of the whole, and \<^verbatim>\<open>b\<close> is evaluated only when
  \<^verbatim>\<open>a\<close> is true.
\<close>

fun js_not :: "js_error + bool \<Rightarrow> js_error + bool" where
  "js_not (Inl e) = Inl e"
| "js_not (Inr a) = Inr (\<not> a)"

fun js_and :: "js_error + bool \<Rightarrow> js_error + bool \<Rightarrow> js_error + bool" where
  "js_and (Inl e) b = Inl e"
| "js_and (Inr a) b = (if a then b else Inr False)"

text \<open>\<^verbatim>\<open>typeof v\<close>\<close>

fun typeof :: "'a jsval \<Rightarrow> string" where
  "typeof JUndefined = ''undefined''"
| "typeof JNull = ''object''"
| "typeof (JBoolean b) = ''boolean''"
| "typeof (JNumber n) = ''number''"
| "typeof (JBigInt n) = ''bigint''"
| "typeof (JString s) = ''string''"
| "typeof (JSymbol y) = ''symbol''"
| "typeof (JFunction f) = ''function''"
| "typeof (JObject r) = ''object''"
| "typeof (JArray xs) = ''object''"
| "typeof (JRevokedProxy callable) = (if callable then ''function'' else ''object'')"

text \<open>
  \<^verbatim>\<open>v.filter(p)\<close>: on an array the elements satisfying \<open>p\<close>, in order, as a new array.
  \<open>null\<close> and \<open>undefined\<close> have no properties, reading a property of a revoked proxy
  throws, and the other non-array values above have no \<open>filter\<close> method, so the call
  raises a \<open>TypeError\<close> there.
\<close>

fun array_filter :: "('a \<Rightarrow> bool) \<Rightarrow> 'a jsval \<Rightarrow> js_error + 'a list" where
  "array_filter p (JArray xs) = Inr (filter p xs)"
| "array_filter p v = Inl TypeError"

text \<open>
  \<^verbatim>\<open>for (const item of v)\<close>: the items the loop visits. An array yields its elements, a
  string its characters (each a one-character string); nothing else modelled here is
  iterable.
\<close>

fun for_of :: "string jsval \<Rightarrow> js_error + string list" where
  "for_of (JArray xs) = Inr xs"
| "for_of (JString s) = Inr (map (\<lambda>c. [c]) s)"
| "for_of v = Inl TypeError"

text \<open>Truthiness of a string: only the empty string is falsy.\<close>

definition truthy_string :: "string \<Rightarrow> bool" where
  "truthy_string item = (item \<noteq> [])"

section \<open>orderedList\<close>

text \<open>
  \<open>countMap\<close> is a \<^verbatim>\<open>Map<string, number>\<close>; its iteration order is never used, so it
  is a partial function from tokens to counts. \<open>count_item\<close> is the callback of the first
  \<^verbatim>\<open>forEach\<close>: \<^verbatim>\<open>countMap.set(item, (countMap.get(item) || 0) + 1)\<close>, where
  \<^verbatim>\<open>||\<close> replaces both a missing entry and a zero by \<open>0\<close>.
\<close>

type_synonym countMap = "string \<rightharpoonup> nat"

definition count_item :: "string \<Rightarrow> countMap \<Rightarrow> countMap" where
  "count_item item countMap =
     countMap(item \<mapsto> (case countMap item of None \<Rightarrow> 0 | Some c \<Rightarrow> (if c = 0 then 0 else c)) + 1)"

text \<open>
  The block that both loops share: if the map has the item, push it on \<open>result\<close> and
  lower its count, deleting the entry when the count was \<open>1\<close>. The state is the pair
  of \<open>result\<close> and \<open>countMap\<close>.
\<close>

definition take_item :: "string \<Rightarrow> string list \<times> countMap \<Rightarrow> string list \<times> countMap" where
  "take_item item st =
     (case st of (result, countMap) \<Rightarrow>
        (case countMap item of
           None \<Rightarrow> (result, countMap)
         | Some cnt \<Rightarrow>
             (result @ [item],
              if cnt > 1 then countMap(item \<mapsto> cnt - 1) else countMap(item := None))))"

text \<open>The body of the loop over \<open>list2\<close>: the placeholder is skipped first.\<close>

definition order_step :: "string \<Rightarrow> string list \<times> countMap \<Rightarrow> string list \<times> countMap" where
  "order_step item st = (if item = ''_'' then st else take_item item st)"

definition orderedList :: "string jsval \<Rightarrow> string jsval \<Rightarrow> js_error + string jsval" where
  "orderedList list1 list2 =
     (case js_not (isArray list1) of
        Inl e \<Rightarrow> Inl e
      | Inr not_array1 \<Rightarrow>
          if not_array1 then Inr (JArray [])
          else
            (case js_and (js_not (isArray list2)) (isArray list1) of
               Inl e \<Rightarrow> Inl e
             | Inr only_list1 \<Rightarrow>
                 if only_list1 then Inr list1
                 else
                   (case array_filter truthy_string list1 of
                      Inl e \<Rightarrow> Inl e
                    | Inr remaining \<Rightarrow>
                        (let countMap = fold count_item remaining Map.empty in
                         (case for_of list2 of
                            Inl e \<Rightarrow> Inl e
                          | Inr items \<Rightarrow>
                              (let st = fold order_step items ([], countMap);
                                   st' = fold take_item remaining st
                               in Inr (JArray (fst st'))))))))"

section \<open>deduplicateOptions\<close>

text \<open>
  A \<^verbatim>\<open>FieldOption\<close> is an object with the string properties \<^verbatim>\<open>value\<close> and
  \<^verbatim>\<open>label\<close>. An element of the options array is such an object, or \<open>null\<close> or
  \<open>undefined\<close>, which the declared type does not keep out at run time.
\<close>

record FieldOption =
  opt_value :: string
  opt_label :: string

datatype option_entry = UndefinedEntry | NullEntry | OptionEntry FieldOption

text \<open>Truthiness of an entry: an object is truthy, \<open>null\<close> and \<open>undefined\<close> are not.\<close>

fun truthy_entry :: "option_entry \<Rightarrow> bool" where
  "truthy_entry (OptionEntry opt) = True"
| "truthy_entry e = False"

text \<open>
  The \<^verbatim>\<open>for ... of\<close> loop: the state is the pair of \<open>seenValues\<close> and
  \<open>deduplicatedOptions\<close>. Reading \<^verbatim>\<open>option.value\<close> of \<open>null\<close> or \<open>undefined\<close>
  raises a \<open>TypeError\<close>.
\<close>

fun dedup_loop ::
  "option_entry list \<Rightarrow> string set \<times> option_entry list \<Rightarrow> js_error + string set \<times> option_entry list"
where
  "dedup_loop [] st = Inr st"
| "dedup_loop (option # rest) (seenValues, deduplicatedOptions) =
     (case option of
        OptionEntry opt \<Rightarrow>
          (if opt_value opt \<notin> seenValues
           then dedup_loop rest (insert (opt_value opt) seenValues, deduplicatedOptions @ [option])
           else dedup_loop rest (seenValues, deduplicatedOptions))
      | _ \<Rightarrow> Inl TypeError)"

definition deduplicateOptions :: "option_entry jsval \<Rightarrow> js_error + option_entry jsval" where
  "deduplicateOptions options =
     (case array_filter truthy_entry options of
        Inl e \<Rightarrow> Inl e
      | Inr present \<Rightarrow>
          (case dedup_loop present ({}, []) of
             Inl e \<Rightarrow> Inl e
           | Inr (seenValues, deduplicatedOptions) \<Rightarrow> Inr (JArray deduplicatedOptions)))"

section \<open>safeJSONParse\<close>

text \<open>
  \<^verbatim>\<open>JSON.parse\<close> is the runtime's parser and is a parameter here: it maps a text to the
  parsed value, or raises a \<open>SyntaxError\<close>. The model returns, beside the result, the
  list of texts that were handed to the parser, so that a call of the parser can be
  observed. The \<^verbatim>\<open>catch\<close> block turns every error of the \<^verbatim>\<open>try\<close> block into the
  default value; the type test with its \<^verbatim>\<open>Array.isArray\<close> calls stands before the
  \<^verbatim>\<open>try\<close> block, so an error there leaves the function.
\<close>

definition safeJSONParse ::
  "(string \<Rightarrow> js_error + 'a jsval) \<Rightarrow> 'a jsval \<Rightarrow> 'a jsval \<Rightarrow> (js_error + 'a jsval) \<times> string list"
where
  "safeJSONParse JSON_parse input defaultValue =
     (if input = JUndefined \<or> input = JNull then (Inr defaultValue, [])
      else
        (case js_and (Inr (typeof input = typeof defaultValue))
                (case isArray input of
                   Inl e \<Rightarrow> Inl e
                 | Inr array_input \<Rightarrow> if array_input then isArray defaultValue else Inr True) of
           Inl e \<Rightarrow> (Inl e, [])
         | Inr same_type \<Rightarrow>
             if same_type then (Inr input, [])
             else
               (case input of
                  JString text \<Rightarrow>
                    (case JSON_parse text of
                       Inr parsed \<Rightarrow>
                         (Inr (if typeof parsed = typeof defaultValue then parsed else defaultValue),
                          [text])
                     | Inl error \<Rightarrow> (Inr defaultValue, [text]))
                | _ \<Rightarrow> (Inr defaultValue, []))))"

section \<open>fieldOptionsUnion\<close>

text \<open>
  A plain object is the list of its own properties in the order of their creation, each
  key once. The order in which the runtime enumerates them puts the keys that are array
  indices first, in ascending numeric order, and then the other keys in creation order.
  A key is an array index when it is the canonical decimal text of an integer from \<open>0\<close>
  to \<open>2\<^sup>3\<^sup>2 - 2\<close>.
\<close>

type_synonym 'v js_object = "(string \<times> 'v) list"

definition is_digit :: "char \<Rightarrow> bool" where
  "is_digit c = (48 \<le> (of_char c :: nat) \<and> (of_char c :: nat) \<le> 57)"

definition dec_value :: "string \<Rightarrow> nat" where
  "dec_value s = foldl (\<lambda>n c. 10 * n + (of_char c - 48)) 0 s"

definition array_index :: "string \<Rightarrow> nat option" where
  "array_index s =
     (case s of
        [] \<Rightarrow> None
      | c # cs \<Rightarrow>
          if list_all is_digit s \<and> (if c = CHR ''0'' then cs = [] else True) \<and>
             dec_value s < 4294967295
          then Some (dec_value s) else None)"

definition index_key :: "string \<times> 'v \<Rightarrow> nat" where
  "index_key p = (case array_index (fst p) of Some n \<Rightarrow> n | None \<Rightarrow> 0)"

definition own_entries :: "'v js_object \<Rightarrow> (string \<times> 'v) list" where
  "own_entries obj =
     sort_key index_key (filter (\<lambda>p. array_index (fst p) \<noteq> None) obj) @
     filter (\<lambda>p. array_index (fst p) = None) obj"

text \<open>\<^verbatim>\<open>obj[k] = v\<close>: an existing property keeps its place, a new one goes last.\<close>

fun obj_set :: "string \<Rightarrow> 'v \<Rightarrow> 'v js_object \<Rightarrow> 'v js_object" where
  "obj_set k v [] = [(k, v)]"
| "obj_set k v (p # ps) = (if fst p = k then (k, v) # ps else p # obj_set k v ps)"

text \<open>
  One spread element \<^verbatim>\<open>...src\<close> of an object literal: the own properties of \<open>src\<close>
  are defined on the object under construction, in enumeration order.
\<close>

definition spread :: "'v js_object \<Rightarrow> 'v js_object \<Rightarrow> 'v js_object" where
  "spread src target = fold (\<lambda>p obj. obj_set (fst p) (snd p) obj) (own_entries src) target"

text \<open>\<^verbatim>\<open>Object.values(obj)\<close>\<close>

definition Object_values :: "'v js_object \<Rightarrow> 'v list" where
  "Object_values obj = map snd (own_entries obj)"

text \<open>
  \<^verbatim>\<open>options.reduce((acc, option) => ({ ...acc, [option.value]: option }), {})\<close>.
  The function is local to its module and both parameters are typed as arrays of
  options; here they are the lists of the options. The version on the store below takes
  any value and has the errors of a call with something else.
\<close>

definition options_map :: "FieldOption list \<Rightarrow> FieldOption js_object" where
  "options_map options =
     fold (\<lambda>option acc. obj_set (opt_value option) option (spread acc [])) options []"

definition fieldOptionsUnion :: "FieldOption list \<Rightarrow> FieldOption list \<Rightarrow> FieldOption list" where
  "fieldOptionsUnion options1 options2 =
     (let options1Map = options_map options1;
          options2Map = options_map options2
      in Object_values (spread options2Map (spread options1Map [])))"

section \<open>The functions on an explicit store\<close>

text \<open>
  Whether a call mutates its arguments cannot be read off a function from values to
  values, so the three functions are given a second time over a store of objects. An
  array or object is an address; the store maps each kind of object and address to the
  object's content, and \<open>limit\<close> is the next free address: the objects that exist are
  those below it. A \<^verbatim>\<open>new\<close>, an array or object literal, \<^verbatim>\<open>filter\<close> and
  \<^verbatim>\<open>Object.values\<close> allocate; \<^verbatim>\<open>push\<close>, \<^verbatim>\<open>Map.set\<close>, \<^verbatim>\<open>Map.delete\<close> and
  \<^verbatim>\<open>Set.add\<close> write to the object they are called on.
\<close>

type_synonym addr = nat

text \<open>A value held by the program: a primitive by value, an array or object by reference.\<close>

datatype jsref =
    RUndefined
  | RNull
  | RBoolean bool
  | RNumber int
  | RString string
  | RObject addr
  | RArray addr
  | RRevokedProxy bool

text \<open>An element of an options array: \<open>undefined\<close>, \<open>null\<close>, or a reference to an option object.\<close>

datatype entry_ref = UndefinedRef | NullRef | OptionRef addr

record store =
  string_arrays :: "addr \<Rightarrow> string list"
  entry_arrays :: "addr \<Rightarrow> entry_ref list"
  option_objects :: "addr \<Rightarrow> FieldOption"
  count_maps :: "addr \<Rightarrow> countMap"
  value_sets :: "addr \<Rightarrow> string set"
  keyed_objects :: "addr \<Rightarrow> addr js_object"
  limit :: addr

subsection \<open>Allocation and writes\<close>

definition new_string_array :: "string list \<Rightarrow> store \<Rightarrow> addr \<times> store" where
  "new_string_array xs s =
     (limit s, s\<lparr>string_arrays := (string_arrays s)(limit s := xs), limit := Suc (limit s)\<rparr>)"

definition new_entry_array :: "entry_ref list \<Rightarrow> store \<Rightarrow> addr \<times> store" where
  "new_entry_array es s =
     (limit s, s\<lparr>entry_arrays := (entry_arrays s)(limit s := es), limit := Suc (limit s)\<rparr>)"

definition new_count_map :: "store \<Rightarrow> addr \<times> store" where
  "new_count_map s =
     (limit s, s\<lparr>count_maps := (count_maps s)(limit s := Map.empty), limit := Suc (limit s)\<rparr>)"

definition new_value_set :: "store \<Rightarrow> addr \<times> store" where
  "new_value_set s =
     (limit s, s\<lparr>value_sets := (value_sets s)(limit s := {}), limit := Suc (limit s)\<rparr>)"

definition new_keyed_object :: "addr js_object \<Rightarrow> store \<Rightarrow> addr \<times> store" where
  "new_keyed_object obj s =
     (limit s, s\<lparr>keyed_objects := (keyed_objects s)(limit s := obj), limit := Suc (limit s)\<rparr>)"

text \<open>\<^verbatim>\<open>arr.push(item)\<close> on an array of strings and on an array of entries.\<close>

definition push_string :: "addr \<Rightarrow> string \<Rightarrow> store \<Rightarrow> store" where
  "push_string arr item s = s\<lparr>string_arrays := (string_arrays s)(arr := string_arrays s arr @ [item])\<rparr>"

definition push_entry :: "addr \<Rightarrow> entry_ref \<Rightarrow> store \<Rightarrow> store" where
  "push_entry arr e s = s\<lparr>entry_arrays := (entry_arrays s)(arr := entry_arrays s arr @ [e])\<rparr>"

text \<open>A write to a \<^verbatim>\<open>Map\<close> (\<^verbatim>\<open>set\<close>, \<^verbatim>\<open>delete\<close>) and \<^verbatim>\<open>Set.add\<close>.\<close>

definition write_count_map :: "addr \<Rightarrow> countMap \<Rightarrow> store \<Rightarrow> store" where
  "write_count_map m cm s = s\<lparr>count_maps := (count_maps s)(m := cm)\<rparr>"

definition set_add :: "addr \<Rightarrow> string \<Rightarrow> store \<Rightarrow> store" where
  "set_add st v s = s\<lparr>value_sets := (value_sets s)(st := insert v (value_sets s st))\<rparr>"

subsection \<open>orderedList on the store\<close>

fun isArray_ref :: "jsref \<Rightarrow> js_error + bool" where
  "isArray_ref (RArray a) = Inr True"
| "isArray_ref (RRevokedProxy callable) = Inl TypeError"
| "isArray_ref v = Inr False"

text \<open>
  \<open>string_items\<close>: the items that \<^verbatim>\<open>for (const item of v)\<close> visits, or the
  \<open>TypeError\<close> of a value that is not iterable. \<open>string_elements\<close>: the elements
  that an array method such as \<^verbatim>\<open>v.filter\<close> reads, or the \<open>TypeError\<close> of a value
  without that method. A loop visits the elements that the array has when the loop
  starts: the loop bodies below write to \<open>result\<close>, \<open>countMap\<close>, \<open>seenValues\<close> and
  \<open>deduplicatedOptions\<close> only, never to the array that is being visited.
\<close>

fun string_items :: "store \<Rightarrow> jsref \<Rightarrow> js_error + string list" where
  "string_items s (RArray a) = Inr (string_arrays s a)"
| "string_items s (RString str) = Inr (map (\<lambda>c. [c]) str)"
| "string_items s v = Inl TypeError"

fun string_elements :: "store \<Rightarrow> jsref \<Rightarrow> js_error + string list" where
  "string_elements s (RArray a) = Inr (string_arrays s a)"
| "string_elements s v = Inl TypeError"

definition count_item_st :: "addr \<Rightarrow> string \<Rightarrow> store \<Rightarrow> store" where
  "count_item_st countMap item s = write_count_map countMap (count_item item (count_maps s countMap)) s"

definition take_item_st :: "addr \<Rightarrow> addr \<Rightarrow> string \<Rightarrow> store \<Rightarrow> store" where
  "take_item_st result countMap item s =
     (case count_maps s countMap item of
        None \<Rightarrow> s
      | Some cnt \<Rightarrow>
          (let s1 = push_string result item s in
           if cnt > 1 then write_count_map countMap ((count_maps s1 countMap)(item \<mapsto> cnt - 1)) s1
           else write_count_map countMap ((count_maps s1 countMap)(item := None)) s1))"

definition order_step_st :: "addr \<Rightarrow> addr \<Rightarrow> string \<Rightarrow> store \<Rightarrow> store" where
  "order_step_st result countMap item s =
     (if item = ''_'' then s else take_item_st result countMap item s)"

definition orderedList_st :: "jsref \<Rightarrow> jsref \<Rightarrow> store \<Rightarrow> (js_error + jsref) \<times> store" where
  "orderedList_st list1 list2 s =
     (case js_not (isArray_ref list1) of
        Inl e \<Rightarrow> (Inl e, s)
      | Inr not_array1 \<Rightarrow>
          if not_array1 then
            (let (empty, s1) = new_string_array [] s in (Inr (RArray empty), s1))
          else
            (case js_and (js_not (isArray_ref list2)) (isArray_ref list1) of
               Inl e \<Rightarrow> (Inl e, s)
             | Inr only_list1 \<Rightarrow>
                 if only_list1 then (Inr list1, s)
                 else
                   (let (result, s1) = new_string_array [] s in
                    (case string_elements s1 list1 of
                       Inl e \<Rightarrow> (Inl e, s1)
                     | Inr elements \<Rightarrow>
                         (let (remaining, s2) =
                                new_string_array (filter truthy_string elements) s1;
                              (countMap, s3) = new_count_map s2;
                              s4 = fold (count_item_st countMap) (string_arrays s3 remaining) s3
                          in
                          (case string_items s4 list2 of
                             Inl e \<Rightarrow> (Inl e, s4)
                           | Inr items \<Rightarrow>
                               (let s5 = fold (order_step_st result countMap) items s4;
                                    s6 = fold (take_item_st result countMap)
                                           (string_arrays s5 remaining) s5
                                in (Inr (RArray result), s6))))))))"

subsection \<open>deduplicateOptions on the store\<close>

fun entry_elements :: "store \<Rightarrow> jsref \<Rightarrow> js_error + entry_ref list" where
  "entry_elements s (RArray a) = Inr (entry_arrays s a)"
| "entry_elements s v = Inl TypeError"

fun truthy_ref :: "entry_ref \<Rightarrow> bool" where
  "truthy_ref (OptionRef a) = True"
| "truthy_ref e = False"

fun dedup_loop_st :: "addr \<Rightarrow> addr \<Rightarrow> entry_ref list \<Rightarrow> store \<Rightarrow> js_error option \<times> store" where
  "dedup_loop_st seenValues deduplicatedOptions [] s = (None, s)"
| "dedup_loop_st seenValues deduplicatedOptions (option # rest) s =
     (case option of
        OptionRef a \<Rightarrow>
          (if opt_value (option_objects s a) \<notin> value_sets s seenValues
           then dedup_loop_st seenValues deduplicatedOptions rest
                  (push_entry deduplicatedOptions option
                    (set_add seenValues (opt_value (option_objects s a)) s))
           else dedup_loop_st seenValues deduplicatedOptions rest s)
      | _ \<Rightarrow> (Some TypeError, s))"

definition deduplicateOptions_st :: "jsref \<Rightarrow> store \<Rightarrow> (js_error + jsref) \<times> store" where
  "deduplicateOptions_st options s =
     (let (seenValues, s1) = new_value_set s;
          (deduplicatedOptions, s2) = new_entry_array [] s1
      in
      (case entry_elements s2 options of
         Inl e \<Rightarrow> (Inl e, s2)
       | Inr elements \<Rightarrow>
           (let (present, s3) = new_entry_array (filter truthy_ref elements) s2 in
            (case dedup_loop_st seenValues deduplicatedOptions (entry_arrays s3 present) s3 of
               (Some e, s4) \<Rightarrow> (Inl e, s4)
             | (None, s4) \<Rightarrow> (Inr (RArray deduplicatedOptions), s4)))))"

subsection \<open>fieldOptionsUnion on the store\<close>

text \<open>
  \<^verbatim>\<open>options.reduce((acc, option) => ({ ...acc, [option.value]: option }), {})\<close>: every
  step builds a new object from the accumulator; the properties hold references to the
  option objects of the array.
\<close>

fun reduce_st :: "entry_ref list \<Rightarrow> addr \<Rightarrow> store \<Rightarrow> (js_error + addr) \<times> store" where
  "reduce_st [] acc s = (Inr acc, s)"
| "reduce_st (option # rest) acc s =
     (case option of
        OptionRef a \<Rightarrow>
          (let (acc', s1) =
                 new_keyed_object
                   (obj_set (opt_value (option_objects s a)) a (spread (keyed_objects s acc) [])) s
           in reduce_st rest acc' s1)
      | _ \<Rightarrow> (Inl TypeError, s))"

definition options_map_st :: "jsref \<Rightarrow> store \<Rightarrow> (js_error + addr) \<times> store" where
  "options_map_st options s =
     (case entry_elements s options of
        Inl e \<Rightarrow> (Inl e, s)
      | Inr elements \<Rightarrow>
          (let (initial, s1) = new_keyed_object [] s in reduce_st elements initial s1))"

definition fieldOptionsUnion_st :: "jsref \<Rightarrow> jsref \<Rightarrow> store \<Rightarrow> (js_error + jsref) \<times> store" where
  "fieldOptionsUnion_st options1 options2 s =
     (case options_map_st options1 s of
        (Inl e, s1) \<Rightarrow> (Inl e, s1)
      | (Inr options1Map, s1) \<Rightarrow>
          (case options_map_st options2 s1 of
             (Inl e, s2) \<Rightarrow> (Inl e, s2)
           | (Inr options2Map, s2) \<Rightarrow>
               (let (merged, s3) =
                      new_keyed_object
                        (spread (keyed_objects s2 options2Map) (spread (keyed_objects s2 options1Map) [])) s2;
                    (values, s4) = new_entry_array (map OptionRef (Object_values (keyed_objects s3 merged))) s3
                in (Inr (RArray values), s4))))"

subsection \<open>What a call leaves alone\<close>

text \<open>
  \<open>unchanged s s'\<close>: every object that exists in \<open>s\<close> has the same content in \<open>s'\<close>.
\<close>

definition same_at :: "store \<Rightarrow> store \<Rightarrow> addr \<Rightarrow> bool" where
  "same_at s s' a =
     (string_arrays s' a = string_arrays s a \<and> entry_arrays s' a = entry_arrays s a \<and>
      option_objects s' a = option_objects s a \<and> count_maps s' a = count_maps s a \<and>
      value_sets s' a = value_sets s a \<and> keyed_objects s' a = keyed_objects s a)"

definition unchanged :: "store \<Rightarrow> store \<Rightarrow> bool" where
  "unchanged s s' = (\<forall>a. a < limit s \<longrightarrow> same_at s s' a)"

definition extends :: "store \<Rightarrow> store \<Rightarrow> bool" where
  "extends s s' = (limit s \<le> limit s' \<and> unchanged s s')"

section \<open>The reference algorithm of the specification\<close>

text \<open>
  \<open>Reorder\<close> follows the words of the specification, not the code: build a
  multiplicity count of every token of \<open>list1\<close>; walk \<open>list2\<close> left to right and,
  for each token other than the placeholder whose remaining count is positive, append
  one occurrence and decrement its count; then walk \<open>list1\<close> in original order and do
  the same for each token with a positive remaining count.
\<close>

definition spec_take :: "string \<Rightarrow> string list \<times> (string \<Rightarrow> nat) \<Rightarrow> string list \<times> (string \<Rightarrow> nat)" where
  "spec_take token st =
     (case st of (out, remaining) \<Rightarrow>
        if remaining token > 0 then (out @ [token], remaining(token := remaining token - 1))
        else (out, remaining))"

definition Reorder :: "string list \<Rightarrow> string list \<Rightarrow> string list" where
  "Reorder list1 list2 =
     (let counts = (\<lambda>token. count_list list1 token);
          after2 = fold (\<lambda>token st. if token = ''_'' then st else spec_take token st) list2 ([], counts);
          after1 = fold spec_take list1 after2
      in fst after1)"

section \<open>Auxiliary notions for the proofs\<close>

text \<open>
  The count map that stands for a multiset of tokens still available: a token is a key
  exactly when it is still available, with its multiplicity as the count.
\<close>

definition cm_of :: "string multiset \<Rightarrow> countMap" where
  "cm_of M = (\<lambda>x. if x \<in># M then Some (count M x) else None)"

text \<open>
  The two loops of \<open>orderedList\<close> on a state that holds the available tokens as a
  multiset; \<open>as_countMap\<close> and \<open>as_counts\<close> turn such a state into the state of the
  code and into the state of the reference algorithm.
\<close>

definition avail_take :: "string \<Rightarrow> string list \<times> string multiset \<Rightarrow> string list \<times> string multiset" where
  "avail_take x st = (case st of (res, M) \<Rightarrow> if x \<in># M then (res @ [x], M - {#x#}) else (res, M))"

definition avail_step :: "string \<Rightarrow> string list \<times> string multiset \<Rightarrow> string list \<times> string multiset" where
  "avail_step x st = (if x = ''_'' then st else avail_take x st)"

definition as_countMap :: "string list \<times> string multiset \<Rightarrow> string list \<times> countMap" where
  "as_countMap st = (fst st, cm_of (snd st))"

definition as_counts :: "string list \<times> string multiset \<Rightarrow> string list \<times> (string \<Rightarrow> nat)" where
  "as_counts st = (fst st, count (snd st))"

definition reorder_core :: "string list \<Rightarrow> string list \<Rightarrow> string list" where
  "reorder_core remaining items =
     fst (fold avail_take remaining (fold avail_step items ([], mset remaining)))"

section \<open>The deduplication contract of the specification\<close>

text \<open>
  \<open>DeduplicateByValue\<close> follows the words of the specification: go through the input
  in order, skip the \<open>null\<close> and \<open>undefined\<close> entries, and keep an entry only if its
  value has not been seen before. Position \<open>i\<close> is kept when it holds an option whose
  value no option at an earlier position has.
\<close>

fun entry_value :: "option_entry \<Rightarrow> string option" where
  "entry_value (OptionEntry opt) = Some (opt_value opt)"
| "entry_value e = None"

definition kept :: "option_entry list \<Rightarrow> nat \<Rightarrow> bool" where
  "kept options i =
     (case entry_value (options ! i) of
        None \<Rightarrow> False
      | Some v \<Rightarrow> Some v \<notin> set (map entry_value (take i options)))"

definition DeduplicateByValue :: "option_entry list \<Rightarrow> option_entry list" where
  "DeduplicateByValue options =
     map (\<lambda>i. options ! i) (filter (kept options) [0..<length options])"

text \<open>
  For the proofs: the same with a set of values seen before the list starts, and as a
  recursion over the list.
\<close>

definition kept_from :: "string set \<Rightarrow> option_entry list \<Rightarrow> nat \<Rightarrow> bool" where
  "kept_from seen options i =
     (case entry_value (options ! i) of
        None \<Rightarrow> False
      | Some v \<Rightarrow> v \<notin> seen \<and> Some v \<notin> set (map entry_value (take i options)))"

fun first_seen :: "string set \<Rightarrow> option_entry list \<Rightarrow> option_entry list" where
  "first_seen seen [] = []"
| "first_seen seen (e # es) =
     (case entry_value e of
        None \<Rightarrow> first_seen seen es
      | Some v \<Rightarrow> if v \<in> seen then first_seen seen es else e # first_seen (insert v seen) es)"

text \<open>For the proofs about \<open>fieldOptionsUnion\<close>: the last option of a list with a given value.\<close>

definition latest :: "FieldOption list \<Rightarrow> (string \<rightharpoonup> FieldOption)" where
  "latest options = map_of (rev (map (\<lambda>opt. (opt_value opt, opt)) options))"

section \<open>From the store to values\<close>

text \<open>
  The value that a reference stands for in a store, for an argument of \<open>orderedList\<close>
  and for an argument of \<open>deduplicateOptions\<close>, and whether a reference points to an
  object that exists.
\<close>

fun string_value :: "store \<Rightarrow> jsref \<Rightarrow> string jsval" where
  "string_value s RUndefined = JUndefined"
| "string_value s RNull = JNull"
| "string_value s (RBoolean b) = JBoolean b"
| "string_value s (RNumber n) = JNumber n"
| "string_value s (RString x) = JString x"
| "string_value s (RObject a) = JObject a"
| "string_value s (RArray a) = JArray (string_arrays s a)"
| "string_value s (RRevokedProxy callable) = JRevokedProxy callable"

fun entry_of :: "store \<Rightarrow> entry_ref \<Rightarrow> option_entry" where
  "entry_of s UndefinedRef = UndefinedEntry"
| "entry_of s NullRef = NullEntry"
| "entry_of s (OptionRef a) = OptionEntry (option_objects s a)"

fun entries_value :: "store \<Rightarrow> jsref \<Rightarrow> option_entry jsval" where
  "entries_value s RUndefined = JUndefined"
| "entries_value s RNull = JNull"
| "entries_value s (RBoolean b) = JBoolean b"
| "entries_value s (RNumber n) = JNumber n"
| "entries_value s (RString x) = JString x"
| "entries_value s (RObject a) = JObject a"
| "entries_value s (RArray a) = JArray (map (entry_of s) (entry_arrays s a))"
| "entries_value s (RRevokedProxy callable) = JRevokedProxy callable"

fun exists_in :: "store \<Rightarrow> jsref \<Rightarrow> bool" where
  "exists_in s (RArray a) = (a < limit s)"
| "exists_in s (RObject a) = (a < limit s)"
| "exists_in s v = True"

definition view :: "addr \<Rightarrow> addr \<Rightarrow> store \<Rightarrow> string list \<times> countMap" where
  "view result countMap s = (string_arrays s result, count_maps s countMap)"

section \<open>Properties of orderedList\<close>

lemma cm_of_empty: "cm_of {#} = Map.empty"
  by (simp add: cm_of_def)

lemma count_item_cm_of: "count_item x (cm_of M) = cm_of (add_mset x M)"
  by (rule ext) (auto simp: count_item_def cm_of_def not_in_iff)

lemma fold_count_item: "fold count_item xs (cm_of M) = cm_of (M + mset xs)"
  by (induction xs arbitrary: M) (simp_all add: count_item_cm_of)

lemma cm_of_remove: "x \<in># M \<Longrightarrow>
  (if count M x > 1 then (cm_of M)(x \<mapsto> count M x - 1) else (cm_of M)(x := None)) = cm_of (M - {#x#})"
  by (rule ext) (auto simp: cm_of_def not_in_iff dest: in_diffD)

lemma take_item_cm_of:
  "take_item x (res, cm_of M) =
     (if x \<in># M then (res @ [x], cm_of (M - {#x#})) else (res, cm_of M))"
proof (cases "x \<in># M")
  case True
  then have "cm_of M x = Some (count M x)" by (simp add: cm_of_def)
  then show ?thesis using True cm_of_remove[OF True] by (simp add: take_item_def)
next
  case False
  then show ?thesis by (simp add: take_item_def cm_of_def)
qed

lemma take_item_abs: "take_item x (as_countMap st) = as_countMap (avail_take x st)"
  by (cases st) (simp add: as_countMap_def avail_take_def take_item_cm_of)

lemma order_step_abs: "order_step x (as_countMap st) = as_countMap (avail_step x st)"
  by (simp add: order_step_def avail_step_def take_item_abs)

lemma fold_take_item_abs: "fold take_item xs (as_countMap st) = as_countMap (fold avail_take xs st)"
  by (induction xs arbitrary: st) (simp_all add: take_item_abs)

lemma fold_order_step_abs: "fold order_step xs (as_countMap st) = as_countMap (fold avail_step xs st)"
  by (induction xs arbitrary: st) (simp_all add: order_step_abs)

lemma orderedList_arrays:
  "orderedList (JArray list1) (JArray list2) =
     Inr (JArray (reorder_core (filter truthy_string list1) list2))"
proof -
  let ?rem = "filter truthy_string list1"
  have c: "fold count_item ?rem Map.empty = cm_of (mset ?rem)"
    using fold_count_item[of ?rem "{#}"] by (simp add: cm_of_empty)
  have s: "([], cm_of (mset ?rem)) = as_countMap ([], mset ?rem)"
    by (simp add: as_countMap_def)
  have run: "fold take_item ?rem (fold order_step list2 ([], cm_of (mset ?rem))) =
      as_countMap (fold avail_take ?rem (fold avail_step list2 ([], mset ?rem)))"
    by (simp only: s fold_order_step_abs fold_take_item_abs)
  show ?thesis
    unfolding orderedList_def reorder_core_def
    by (simp add: c run as_countMap_def del: mset_filter)
qed

lemma spec_take_abs: "spec_take x (as_counts st) = as_counts (avail_take x st)"
  by (cases st) (auto simp: as_counts_def avail_take_def spec_take_def not_in_iff)

lemma fold_spec_take_abs: "fold spec_take xs (as_counts st) = as_counts (fold avail_take xs st)"
  by (induction xs arbitrary: st) (simp_all add: spec_take_abs)

lemma fold_spec_step_abs:
  "fold (\<lambda>token st. if token = ''_'' then st else spec_take token st) xs (as_counts st) =
     as_counts (fold avail_step xs st)"
  by (induction xs arbitrary: st) (simp_all add: spec_take_abs avail_step_def)

lemma Reorder_core: "Reorder list1 list2 = reorder_core list1 list2"
proof -
  have s: "([], \<lambda>token. count_list list1 token) = as_counts ([], mset list1)"
    by (simp add: as_counts_def fun_eq_iff count_mset)
  show ?thesis
    unfolding Reorder_def Let_def s fold_spec_step_abs fold_spec_take_abs reorder_core_def
    by (simp add: as_counts_def)
qed

lemma avail_take_snd: "snd (avail_take x st) = snd st - {#x#}"
  by (cases st) (simp add: avail_take_def)

lemma fold_avail_take_snd: "snd (fold avail_take xs st) = snd st - mset xs"
  by (induction xs arbitrary: st) (simp_all add: avail_take_snd)

lemma avail_take_total: "mset (fst (avail_take x st)) + snd (avail_take x st) = mset (fst st) + snd st"
  by (cases st) (simp add: avail_take_def)

lemma avail_step_total: "mset (fst (avail_step x st)) + snd (avail_step x st) = mset (fst st) + snd st"
  by (simp add: avail_step_def avail_take_total)

lemma fold_avail_take_total:
  "mset (fst (fold avail_take xs st)) + snd (fold avail_take xs st) = mset (fst st) + snd st"
  by (induction xs arbitrary: st) (simp_all add: avail_take_total)

lemma fold_avail_step_total:
  "mset (fst (fold avail_step xs st)) + snd (fold avail_step xs st) = mset (fst st) + snd st"
  by (induction xs arbitrary: st) (simp_all add: avail_step_total)

lemma mset_reorder_core: "mset (reorder_core remaining items) = mset remaining"
proof -
  let ?st2 = "fold avail_step items ([], mset remaining)"
  let ?st1 = "fold avail_take remaining ?st2"
  have t2: "mset (fst ?st2) + snd ?st2 = mset remaining"
    using fold_avail_step_total[of items "([], mset remaining)"] by simp
  then have "snd ?st2 \<subseteq># mset remaining"
    by (metis mset_subset_eq_add_right)
  then have "snd ?st1 = {#}"
    by (simp add: fold_avail_take_snd Diff_eq_empty_iff_mset)
  moreover have "mset (fst ?st1) + snd ?st1 = mset remaining"
    using fold_avail_take_total[of remaining ?st2] t2 by simp
  ultimately show ?thesis by (simp add: reorder_core_def)
qed

lemma fold_avail_take_all:
  "mset xs \<subseteq># M \<Longrightarrow> fold avail_take xs (res, M) = (res @ xs, M - mset xs)"
proof (induction xs arbitrary: res M)
  case Nil
  then show ?case by simp
next
  case (Cons x xs)
  from Cons.prems have x: "x \<in># M" by (simp add: insert_subset_eq_iff)
  from Cons.prems have "mset xs \<subseteq># M - {#x#}" by (simp add: insert_subset_eq_iff)
  from Cons.IH[OF this] x show ?case by (simp add: avail_take_def)
qed

lemma reorder_core_Nil: "reorder_core remaining [] = remaining"
  by (simp add: reorder_core_def fold_avail_take_all)


lemma avail_step_snd:
  "snd (avail_step x st) = snd st - mset (filter (\<lambda>t. t \<noteq> ''_'') [x])"
  by (simp add: avail_step_def avail_take_snd)

lemma fold_avail_step_snd:
  "snd (fold avail_step xs st) = snd st - mset (filter (\<lambda>t. t \<noteq> ''_'') xs)"
  by (induction xs arbitrary: st) (simp_all add: avail_step_snd del: mset_filter)

lemma avail_step_absent: "x \<notin># snd st \<Longrightarrow> avail_step x st = st"
  by (cases st) (simp add: avail_step_def avail_take_def)

lemma fold_avail_step_absent:
  "x \<notin># snd st \<Longrightarrow> fold avail_step (filter (\<lambda>t. t \<noteq> x) xs) st = fold avail_step xs st"
proof (induction xs arbitrary: st)
  case Nil
  then show ?case by simp
next
  case (Cons y ys)
  show ?case
  proof (cases "y = x")
    case True
    with Cons show ?thesis by (simp add: avail_step_absent)
  next
    case False
    from Cons.prems have "x \<notin># snd (avail_step y st)"
      by (auto simp: avail_step_snd dest: in_diffD)
    from Cons.IH[OF this] False show ?thesis by simp
  qed
qed

lemma reorder_core_falsy:
  "reorder_core (filter truthy_string list1) (filter (\<lambda>t. t \<noteq> []) list2) =
   reorder_core (filter truthy_string list1) list2"
  unfolding reorder_core_def
  by (subst fold_avail_step_absent) (simp_all add: truthy_string_def)

lemma reorder_core_ignored:
  assumes "count_list remaining token \<le> count_list before token"
  shows "reorder_core remaining (before @ token # after) = reorder_core remaining (before @ after)"
proof (cases "token = ''_''")
  case True
  then show ?thesis by (simp add: reorder_core_def avail_step_def)
next
  case False
  let ?st = "fold avail_step before ([], mset remaining)"
  from False have "count (mset (filter (\<lambda>t. t \<noteq> ''_'') before)) token = count_list before token"
    by (simp add: count_mset del: mset_filter) (induction before; simp)
  with assms have "count (snd ?st) token = 0"
    by (simp add: fold_avail_step_snd count_mset del: mset_filter)
  then have "token \<notin># snd ?st" by (simp add: not_in_iff)
  then have "avail_step token ?st = ?st" by (rule avail_step_absent)
  then show ?thesis by (simp add: reorder_core_def)
qed

lemma count_list_filter_le: "count_list (filter P xs) x \<le> count_list xs x"
  by (induction xs) simp_all


subsection \<open>The claims about orderedList\<close>

text \<open>
  C1, as amended. For all arrays \<open>list1\<close> and \<open>list2\<close> of strings, \<open>orderedList\<close>
  returns an array whose multiset of elements is the multiset of the non-empty tokens
  of \<open>list1\<close>: each non-empty token appears in the output exactly as often as in
  \<open>list1\<close>, and the empty string does not appear.
\<close>

theorem orderedList_multiset:
  "\<exists>result. orderedList (JArray list1) (JArray list2) = Inr (JArray result) \<and>
     mset result = mset (filter (\<lambda>token. token \<noteq> []) list1)"
proof -
  have "mset (reorder_core (filter truthy_string list1) list2) = mset (filter truthy_string list1)"
    by (rule mset_reorder_core)
  then show ?thesis
    unfolding orderedList_arrays truthy_string_def by blast
qed

text \<open>
  C1 as stated fails: for \<open>list1 = [""]\<close> and \<open>list2 = []\<close> the output is empty, so
  the token \<open>""\<close> of \<open>list1\<close> appears in it zero times.
\<close>

theorem orderedList_multiset_counterexample:
  "orderedList (JArray ['''']) (JArray []) = Inr (JArray []) \<and>
   mset ([] :: string list) \<noteq> mset ['''']"
  by (simp add: orderedList_def truthy_string_def)

text \<open>
  C2, as amended. For all arrays \<open>list1\<close> and \<open>list2\<close> of strings, \<open>orderedList\<close>
  returns the result of the reference algorithm run on \<open>list1\<close> without its empty
  strings. A token of \<open>list2\<close> that has already been mentioned as often as it occurs in
  \<open>list1\<close> (in particular one that does not occur in \<open>list1\<close>) is ignored, and
  \<open>orderedList(["a","b","a"], ["b","_","a"]) = ["b","a","a"]\<close>.
\<close>

theorem orderedList_reference:
  "orderedList (JArray list1) (JArray list2) =
     Inr (JArray (Reorder (filter (\<lambda>token. token \<noteq> []) list1) list2)) \<and>
   (count_list list1 token \<le> count_list before token \<longrightarrow>
     orderedList (JArray list1) (JArray (before @ token # after)) =
     orderedList (JArray list1) (JArray (before @ after))) \<and>
   orderedList (JArray [''a'', ''b'', ''a'']) (JArray [''b'', ''_'', ''a'']) =
     Inr (JArray [''b'', ''a'', ''a''])"
proof (intro conjI impI)
  show "orderedList (JArray list1) (JArray list2) =
      Inr (JArray (Reorder (filter (\<lambda>token. token \<noteq> []) list1) list2))"
    unfolding orderedList_arrays Reorder_core truthy_string_def ..
next
  assume "count_list list1 token \<le> count_list before token"
  then have "count_list (filter truthy_string list1) token \<le> count_list before token"
    using count_list_filter_le[of truthy_string list1 token] by simp
  then show "orderedList (JArray list1) (JArray (before @ token # after)) =
      orderedList (JArray list1) (JArray (before @ after))"
    unfolding orderedList_arrays by (simp only: reorder_core_ignored)
next
  show "orderedList (JArray [''a'', ''b'', ''a'']) (JArray [''b'', ''_'', ''a'']) =
      Inr (JArray [''b'', ''a'', ''a''])"
    by (simp add: orderedList_def truthy_string_def count_item_def order_step_def take_item_def)
qed

theorem orderedList_reference_witness:
  "count_list [''a''] ''x'' \<le> count_list [''_''] ''x'' \<and>
   orderedList (JArray [''a'']) (JArray ([''_''] @ ''x'' # [''a''])) =
   orderedList (JArray [''a'']) (JArray ([''_''] @ [''a''])) \<and>
   orderedList (JArray [''a'']) (JArray [''x'', ''a'']) = Inr (JArray (Reorder [''a''] [''x'', ''a'']))"
  using orderedList_reference[of "[''a'']" "[''x'', ''a'']" "''x''" "[''_'']" "[''a'']"]
  by simp

text \<open>
  C2 as stated fails: for \<open>list1 = ["a", ""]\<close> and \<open>list2 = ["a"]\<close> the reference
  algorithm counts the empty string and appends it in the second walk, the code does not.
\<close>

theorem orderedList_reference_counterexample:
  "orderedList (JArray [''a'', '''']) (JArray [''a'']) = Inr (JArray [''a'']) \<and>
   Reorder [''a'', ''''] [''a''] = [''a'', '''']"
  by (simp add: orderedList_def truthy_string_def count_item_def order_step_def take_item_def
      Reorder_def spec_take_def)

text \<open>
  C3, as amended. For every array \<open>list1\<close> of strings, \<open>orderedList(list1, [])\<close>
  returns the non-empty tokens of \<open>list1\<close> in their original order; it is equal to
  \<open>list1\<close> when \<open>list1\<close> has no empty string.
\<close>

theorem orderedList_empty_order:
  "orderedList (JArray list1) (JArray []) = Inr (JArray (filter (\<lambda>token. token \<noteq> []) list1))"
  unfolding orderedList_arrays reorder_core_Nil truthy_string_def ..

text \<open>
  C3 as stated fails: for \<open>list1 = ["a", "", "b"]\<close> the result is \<open>["a", "b"]\<close>.
\<close>

theorem orderedList_empty_order_counterexample:
  "orderedList (JArray [''a'', '''', ''b'']) (JArray []) = Inr (JArray [''a'', ''b'']) \<and>
   [''a'', ''b''] \<noteq> [''a'', '''', ''b'']"
  by (simp add: orderedList_def truthy_string_def count_item_def take_item_def)



text \<open>
  C9. For all arrays \<open>list1\<close> and \<open>list2\<close> of strings, the output of \<open>orderedList\<close>
  contains no empty string, and it is the output for the two arrays without their empty
  strings: an empty string of \<open>list1\<close> is dropped before counting and an empty string of
  \<open>list2\<close> is never matched. So the output omits elements of \<open>list1\<close> for some inputs:
  \<open>orderedList(["a", ""], [""]) = ["a"]\<close>.
\<close>

theorem orderedList_drops_falsy:
  "(\<exists>result. orderedList (JArray list1) (JArray list2) = Inr (JArray result) \<and>
      [] \<notin> set result) \<and>
   orderedList (JArray list1) (JArray list2) =
     orderedList (JArray (filter (\<lambda>token. token \<noteq> []) list1))
       (JArray (filter (\<lambda>token. token \<noteq> []) list2)) \<and>
   orderedList (JArray [''a'', '''']) (JArray ['''']) = Inr (JArray [''a''])"
proof (intro conjI)
  have "set (reorder_core (filter truthy_string list1) list2) = set (filter truthy_string list1)"
    using mset_reorder_core[of "filter truthy_string list1" list2] by (rule mset_eq_setD)
  then have "[] \<notin> set (reorder_core (filter truthy_string list1) list2)"
    by (simp add: truthy_string_def)
  then show "\<exists>result. orderedList (JArray list1) (JArray list2) = Inr (JArray result) \<and>
      [] \<notin> set result"
    unfolding orderedList_arrays by blast
next
  have "filter truthy_string (filter truthy_string list1) = filter truthy_string list1"
    by simp
  then show "orderedList (JArray list1) (JArray list2) =
     orderedList (JArray (filter (\<lambda>token. token \<noteq> []) list1))
       (JArray (filter (\<lambda>token. token \<noteq> []) list2))"
    unfolding orderedList_arrays
    using reorder_core_falsy[of list1 list2] by (simp add: truthy_string_def)
next
  show "orderedList (JArray [''a'', '''']) (JArray ['''']) = Inr (JArray [''a''])"
    by (simp add: orderedList_def truthy_string_def count_item_def order_step_def take_item_def)
qed

section \<open>Properties of deduplicateOptions\<close>

lemma first_seen_filter: "first_seen seen (filter truthy_entry es) = first_seen seen es"
proof (induction es arbitrary: seen)
  case Nil
  then show ?case by simp
next
  case (Cons e es)
  then show ?case by (cases e) simp_all
qed

lemma dedup_loop_first_seen:
  "list_all truthy_entry es \<Longrightarrow>
   \<exists>seen'. dedup_loop es (seen, acc) = Inr (seen', acc @ first_seen seen es)"
proof (induction es arbitrary: seen acc)
  case Nil
  then show ?case by simp
next
  case (Cons e es)
  then obtain opt where e: "e = OptionEntry opt" by (cases e) simp_all
  from Cons.prems have es: "list_all truthy_entry es" by simp
  show ?case
  proof (cases "opt_value opt \<in> seen")
    case True
    with Cons.IH[OF es, of seen acc] e show ?thesis by simp
  next
    case False
    with Cons.IH[OF es, of "insert (opt_value opt) seen" "acc @ [e]"] e show ?thesis by simp
  qed
qed

lemma deduplicateOptions_array:
  "deduplicateOptions (JArray options) = Inr (JArray (first_seen {} options))"
proof -
  have "list_all truthy_entry (filter truthy_entry options)"
    by (simp add: list_all_iff)
  from dedup_loop_first_seen[OF this, of "{}" "[]"]
  show ?thesis by (auto simp: deduplicateOptions_def first_seen_filter)
qed

lemma kept_from_empty: "kept_from {} options = kept options"
  by (simp add: fun_eq_iff kept_from_def kept_def split: option.splits)

lemma kept_from_Cons_0:
  "kept_from seen (e # es) 0 = (case entry_value e of None \<Rightarrow> False | Some v \<Rightarrow> v \<notin> seen)"
  by (simp add: kept_from_def split: option.splits)

lemma kept_from_Cons_Suc:
  "kept_from seen (e # es) (Suc i) =
     (case entry_value e of None \<Rightarrow> kept_from seen es i | Some v \<Rightarrow> kept_from (insert v seen) es i)"
  by (auto simp: kept_from_def split: option.splits)

lemma first_seen_positions:
  "first_seen seen es = map (\<lambda>i. es ! i) (filter (kept_from seen es) [0..<length es])"
proof (induction es arbitrary: seen)
  case Nil
  then show ?case by simp
next
  case (Cons e es)
  have upt: "[0..<length (e # es)] = 0 # map Suc [0..<length es]"
    by (simp add: upt_conv_Cons map_Suc_upt del: upt_Suc)
  have tl: "map (\<lambda>i. (e # es) ! i) (filter (kept_from seen (e # es)) (map Suc [0..<length es])) =
      map (\<lambda>i. es ! i) (filter (\<lambda>i. kept_from seen (e # es) (Suc i)) [0..<length es])"
    by (simp add: filter_map o_def)
  show ?case
  proof (cases "entry_value e")
    case None
    then show ?thesis
      unfolding upt by (simp add: tl kept_from_Cons_0 kept_from_Cons_Suc Cons.IH)
  next
    case (Some v)
    show ?thesis
    proof (cases "v \<in> seen")
      case True
      then have "insert v seen = seen" by auto
      with Some True show ?thesis
        unfolding upt by (simp add: tl kept_from_Cons_0 kept_from_Cons_Suc Cons.IH)
    next
      case False
      with Some show ?thesis
        unfolding upt by (simp add: tl kept_from_Cons_0 kept_from_Cons_Suc Cons.IH)
    qed
  qed
qed

text \<open>
  C6. For every array of options that may contain \<open>null\<close> and \<open>undefined\<close> entries,
  \<open>deduplicateOptions\<close> returns the entries obtained by going through the input in
  order, skipping \<open>null\<close> and \<open>undefined\<close> and keeping an entry only if its value has
  not been seen before, in first-seen order. In particular
  \<open>deduplicateOptions([{value:"a",label:"A"}, null, {value:"a",label:"A2"}]) =
  [{value:"a",label:"A"}]\<close>.
\<close>

theorem deduplicateOptions_first_seen:
  "deduplicateOptions (JArray options) = Inr (JArray (DeduplicateByValue options)) \<and>
   deduplicateOptions
     (JArray [OptionEntry \<lparr>opt_value = ''a'', opt_label = ''A''\<rparr>, NullEntry,
              OptionEntry \<lparr>opt_value = ''a'', opt_label = ''A2''\<rparr>]) =
     Inr (JArray [OptionEntry \<lparr>opt_value = ''a'', opt_label = ''A''\<rparr>])"
proof
  show "deduplicateOptions (JArray options) = Inr (JArray (DeduplicateByValue options))"
    unfolding deduplicateOptions_array DeduplicateByValue_def first_seen_positions kept_from_empty ..
next
  show "deduplicateOptions
     (JArray [OptionEntry \<lparr>opt_value = ''a'', opt_label = ''A''\<rparr>, NullEntry,
              OptionEntry \<lparr>opt_value = ''a'', opt_label = ''A2''\<rparr>]) =
     Inr (JArray [OptionEntry \<lparr>opt_value = ''a'', opt_label = ''A''\<rparr>])"
    by (simp add: deduplicateOptions_def)
qed

section \<open>Errors of orderedList and deduplicateOptions\<close>

lemma isArray_True: "isArray v = Inr True \<Longrightarrow> \<exists>xs. v = JArray xs"
  by (cases v) simp_all

text \<open>
  C7, as amended. On every input that is a primitive value, a function, an ordinary
  object or a plain array of strings (\<^verbatim>\<open>Array.isArray\<close> gives an answer on each of
  them), malformed ones included, \<open>orderedList\<close> throws no error and returns a defined
  output: an empty array when \<open>list1\<close> is not an array, \<open>list1\<close> itself when
  \<open>list1\<close> is an array and \<open>list2\<close> is not, and the reordered array when both are
  arrays. \<open>deduplicateOptions\<close> throws no error for any plain array of options, also
  one with \<open>null\<close> or \<open>undefined\<close> entries, and returns an array; it has no fallback
  for an argument that is \<open>null\<close> or \<open>undefined\<close>, where the call of
  \<open>options.filter\<close> throws a \<open>TypeError\<close>.
\<close>

theorem no_error_on_arrays:
  "(isArray list1 = Inr False \<longrightarrow> orderedList list1 list2 = Inr (JArray [])) \<and>
   (isArray list1 = Inr True \<and> isArray list2 = Inr False \<longrightarrow>
      orderedList list1 list2 = Inr list1) \<and>
   (isArray list1 = Inr True \<and> isArray list2 = Inr True \<longrightarrow>
      (\<exists>result. orderedList list1 list2 = Inr (JArray result))) \<and>
   (\<exists>deduplicated. deduplicateOptions (JArray options) = Inr (JArray deduplicated)) \<and>
   deduplicateOptions JNull = Inl TypeError \<and>
   deduplicateOptions JUndefined = Inl TypeError"
proof (intro conjI impI)
  assume "isArray list1 = Inr False"
  then show "orderedList list1 list2 = Inr (JArray [])"
    by (simp add: orderedList_def)
next
  assume "isArray list1 = Inr True \<and> isArray list2 = Inr False"
  then show "orderedList list1 list2 = Inr list1"
    by (simp add: orderedList_def)
next
  assume "isArray list1 = Inr True \<and> isArray list2 = Inr True"
  then obtain xs ys where "list1 = JArray xs" "list2 = JArray ys"
    using isArray_True[of list1] isArray_True[of list2] by blast
  then show "\<exists>result. orderedList list1 list2 = Inr (JArray result)"
    by (simp add: orderedList_arrays)
next
  show "\<exists>deduplicated. deduplicateOptions (JArray options) = Inr (JArray deduplicated)"
    by (simp add: deduplicateOptions_array)
next
  show "deduplicateOptions JNull = Inl TypeError"
    by (simp add: deduplicateOptions_def)
next
  show "deduplicateOptions JUndefined = Inl TypeError"
    by (simp add: deduplicateOptions_def)
qed

theorem no_error_on_arrays_witness:
  "isArray (JNull :: string jsval) = Inr False \<and>
   orderedList JNull (JRevokedProxy False) = Inr (JArray []) \<and>
   isArray (JArray [''a'']) = Inr True \<and> isArray (JUndefined :: string jsval) = Inr False \<and>
   orderedList (JArray [''a'']) JUndefined = Inr (JArray [''a'']) \<and>
   isArray (JArray [''b'']) = Inr True \<and>
   (\<exists>result. orderedList (JArray [''a'']) (JArray [''b'']) = Inr (JArray result))"
  using no_error_on_arrays[of JNull "JRevokedProxy False" "[]"]
    no_error_on_arrays[of "JArray [''a'']" JUndefined "[]"]
    no_error_on_arrays[of "JArray [''a'']" "JArray [''b'']" "[]"]
  by simp

text \<open>
  C7 as stated fails: \<open>deduplicateOptions(null)\<close> and \<open>deduplicateOptions(undefined)\<close>
  throw a \<open>TypeError\<close>, and so does \<open>orderedList\<close> when \<open>list1\<close> is a revoked
  proxy, or when \<open>list1\<close> is an array and \<open>list2\<close> is a revoked proxy: the guards call
  \<^verbatim>\<open>Array.isArray\<close>, which throws on it.
\<close>

theorem no_error_counterexample:
  "deduplicateOptions JNull = Inl TypeError \<and> deduplicateOptions JUndefined = Inl TypeError \<and>
   orderedList (JRevokedProxy False) (JArray [''x'']) = Inl TypeError \<and>
   orderedList (JArray [''x'']) (JRevokedProxy False) = Inl TypeError"
  by (simp add: deduplicateOptions_def orderedList_def)

section \<open>Properties of safeJSONParse\<close>

text \<open>
  C10, as amended. For a string input and a string default value, \<open>safeJSONParse\<close>
  returns the input itself and does not call the parser. For any input, the parser is
  called exactly when the input is a string and the default value is not a string (and
  then once, on the input). Whatever the parser does, \<open>safeJSONParse\<close> returns a value
  and throws no error, with one exception: the \<open>TypeError\<close> of \<^verbatim>\<open>Array.isArray\<close> on a
  revoked proxy, which the type test before the \<^verbatim>\<open>try\<close> block lets through. That
  happens exactly when input and default value have the same \<^verbatim>\<open>typeof\<close> and either
  the input is a revoked proxy, or the input is an array and the default value is a
  revoked proxy.
\<close>

theorem safeJSONParse_strings:
  "safeJSONParse JSON_parse (JString input) (JString defaultValue) = (Inr (JString input), []) \<and>
   snd (safeJSONParse JSON_parse input' defaultValue') =
     (case input' of
        JString text \<Rightarrow> if typeof defaultValue' = ''string'' then [] else [text]
      | _ \<Rightarrow> []) \<and>
   (if typeof input' = typeof defaultValue' \<and>
       (isArray input' = Inl TypeError \<or>
        isArray input' = Inr True \<and> isArray defaultValue' = Inl TypeError)
    then fst (safeJSONParse JSON_parse input' defaultValue') = Inl TypeError
    else (\<exists>v. fst (safeJSONParse JSON_parse input' defaultValue') = Inr v))"
proof (intro conjI)
  show "safeJSONParse JSON_parse (JString input) (JString defaultValue) = (Inr (JString input), [])"
    by (simp add: safeJSONParse_def)
next
  show "snd (safeJSONParse JSON_parse input' defaultValue') =
     (case input' of
        JString text \<Rightarrow> if typeof defaultValue' = ''string'' then [] else [text]
      | _ \<Rightarrow> [])"
    by (cases input'; cases defaultValue')
      (simp_all add: safeJSONParse_def split: sum.splits)
next
  show "if typeof input' = typeof defaultValue' \<and>
       (isArray input' = Inl TypeError \<or>
        isArray input' = Inr True \<and> isArray defaultValue' = Inl TypeError)
    then fst (safeJSONParse JSON_parse input' defaultValue') = Inl TypeError
    else (\<exists>v. fst (safeJSONParse JSON_parse input' defaultValue') = Inr v)"
    by (cases input'; cases defaultValue')
      (simp_all add: safeJSONParse_def split: sum.splits)
qed

text \<open>
  C10 as stated fails: for a revoked proxy as input and an object as default value both
  have \<^verbatim>\<open>typeof\<close> \<open>"object"\<close>, so \<^verbatim>\<open>Array.isArray(input)\<close> is evaluated and throws,
  outside the \<^verbatim>\<open>try\<close> block; the same happens for an array as input and a revoked
  proxy as default value.
\<close>

theorem safeJSONParse_counterexample:
  "fst (safeJSONParse (Inr \<circ> JString) (JRevokedProxy False) (JObject 0 :: string jsval)) =
     Inl TypeError \<and>
   fst (safeJSONParse (Inr \<circ> JString) (JArray [''a'']) (JRevokedProxy False)) = Inl TypeError"
  by (simp add: safeJSONParse_def)

section \<open>Properties of fieldOptionsUnion\<close>

lemma map_of_obj_set: "map_of (obj_set k v obj) = (map_of obj)(k \<mapsto> v)"
  by (induction obj) (auto simp: fun_eq_iff)

lemma keys_obj_set:
  "map fst (obj_set k v obj) = (if k \<in> fst ` set obj then map fst obj else map fst obj @ [k])"
  by (induction obj) auto

lemma distinct_obj_set: "distinct (map fst obj) \<Longrightarrow> distinct (map fst (obj_set k v obj))"
  by (simp add: keys_obj_set)

lemma mset_own_entries: "mset (own_entries obj) = mset obj"
  by (simp add: own_entries_def)

lemma set_own_entries: "set (own_entries obj) = set obj"
  using mset_own_entries[of obj] by (rule mset_eq_setD)

lemma distinct_own_entries: "distinct (map fst (own_entries obj)) = distinct (map fst obj)"
proof -
  have "mset (map fst (own_entries obj)) = mset (map fst obj)"
    using mset_own_entries[of obj] by (metis mset_map)
  then show ?thesis by (rule mset_eq_imp_distinct_iff)
qed

lemma map_of_fold_obj_set:
  "distinct (map fst es) \<Longrightarrow>
   map_of (fold (\<lambda>p obj. obj_set (fst p) (snd p) obj) es target) = map_of target ++ map_of es"
proof (induction es arbitrary: target)
  case Nil
  then show ?case by simp
next
  case (Cons e es)
  obtain k v where e: "e = (k, v)" by (cases e)
  from Cons.prems e have none: "map_of es k = None"
    by (simp add: map_of_eq_None_iff)
  have "map_of (fold (\<lambda>p obj. obj_set (fst p) (snd p) obj) (e # es) target) =
      map_of (obj_set k v target) ++ map_of es"
    using Cons.IH[of "obj_set k v target"] Cons.prems e by simp
  also have "\<dots> = map_of target ++ map_of (e # es)"
    using none unfolding e map_of_obj_set
    by (intro ext) (simp add: map_add_def split: option.splits)
  finally show ?case .
qed

lemma distinct_fold_obj_set:
  "distinct (map fst target) \<Longrightarrow>
   distinct (map fst (fold (\<lambda>p obj. obj_set (fst p) (snd p) obj) es target))"
  by (induction es arbitrary: target) (simp_all add: distinct_obj_set)

lemma map_of_spread:
  assumes "distinct (map fst src)"
  shows "map_of (spread src target) = map_of target ++ map_of src"
proof -
  have d: "distinct (map fst (own_entries src))"
    using assms by (simp add: distinct_own_entries)
  have "map_of (own_entries src) = map_of src"
    using d assms by (simp add: map_of_inject_set set_own_entries)
  with map_of_fold_obj_set[OF d, of target] show ?thesis
    by (simp add: spread_def)
qed

lemma distinct_spread: "distinct (map fst target) \<Longrightarrow> distinct (map fst (spread src target))"
  unfolding spread_def by (rule distinct_fold_obj_set)

lemma latest_Cons: "m ++ latest (opt # options) = m(opt_value opt \<mapsto> opt) ++ latest options"
  by (auto simp: latest_def fun_eq_iff map_add_def split: option.splits)

lemma options_fold:
  "distinct (map fst acc) \<Longrightarrow>
   distinct (map fst (fold (\<lambda>option acc. obj_set (opt_value option) option (spread acc [])) options acc)) \<and>
   map_of (fold (\<lambda>option acc. obj_set (opt_value option) option (spread acc [])) options acc) =
     map_of acc ++ latest options"
proof (induction options arbitrary: acc)
  case Nil
  then show ?case by (simp add: latest_def)
next
  case (Cons opt options)
  let ?acc = "obj_set (opt_value opt) opt (spread acc [])"
  have d: "distinct (map fst ?acc)"
    by (simp add: distinct_obj_set distinct_spread)
  have m: "map_of ?acc = (map_of acc)(opt_value opt \<mapsto> opt)"
    using Cons.prems by (simp add: map_of_obj_set map_of_spread)
  from Cons.IH[OF d] have "distinct (map fst (fold (\<lambda>option acc. obj_set (opt_value option) option (spread acc []))
      (opt # options) acc))"
    by simp
  moreover from Cons.IH[OF d] have "map_of (fold (\<lambda>option acc. obj_set (opt_value option) option (spread acc []))
      (opt # options) acc) = map_of ?acc ++ latest options"
    by simp
  ultimately show ?case
    unfolding m latest_Cons[symmetric] by blast
qed

lemma options_map_latest:
  "distinct (map fst (options_map options)) \<and> map_of (options_map options) = latest options"
  using options_fold[of "[]" options] by (simp add: options_map_def)

lemma latest_Some: "latest options k = Some opt \<Longrightarrow> opt \<in> set options \<and> opt_value opt = k"
  unfolding latest_def by (auto dest!: map_of_SomeD)

lemma dom_latest: "dom (latest options) = opt_value ` set options"
  by (simp add: latest_def dom_map_of_conv_image_fst image_image)

lemma fieldOptionsUnion_merged:
  "\<exists>merged. fieldOptionsUnion options1 options2 = map snd (own_entries merged) \<and>
     distinct (map fst merged) \<and> map_of merged = latest options1 ++ latest options2"
proof -
  let ?m1 = "options_map options1" and ?m2 = "options_map options2"
  let ?merged = "spread ?m2 (spread ?m1 [])"
  have "distinct (map fst ?merged)"
    by (simp add: distinct_spread)
  moreover have "map_of ?merged = latest options1 ++ latest options2"
    using options_map_latest[of options1] options_map_latest[of options2]
    by (simp add: map_of_spread)
  ultimately show ?thesis
    by (auto simp: fieldOptionsUnion_def Object_values_def Let_def)
qed

lemma fieldOptionsUnion_props:
  "distinct (map opt_value (fieldOptionsUnion options1 options2)) \<and>
   set (map opt_value (fieldOptionsUnion options1 options2)) =
     opt_value ` set options1 \<union> opt_value ` set options2 \<and>
   (\<forall>opt \<in> set (fieldOptionsUnion options1 options2).
      (latest options1 ++ latest options2) (opt_value opt) = Some opt)"
proof -
  obtain merged where out: "fieldOptionsUnion options1 options2 = map snd (own_entries merged)"
    and d: "distinct (map fst merged)"
    and m: "map_of merged = latest options1 ++ latest options2"
    using fieldOptionsUnion_merged by blast
  have key: "opt_value opt = k \<and> (latest options1 ++ latest options2) k = Some opt"
    if "(k, opt) \<in> set merged" for k opt
  proof -
    from that d have s: "map_of merged k = Some opt" by simp
    then have "(latest options1 ++ latest options2) k = Some opt" by (simp add: m)
    moreover from this have "opt_value opt = k"
      by (auto simp: map_add_def split: option.splits dest: latest_Some)
    ultimately show ?thesis by simp
  qed
  have keys: "map opt_value (map snd (own_entries merged)) = map fst (own_entries merged)"
    by (auto simp: set_own_entries dest: key)
  have "distinct (map opt_value (fieldOptionsUnion options1 options2))"
    unfolding out keys using d by (simp add: distinct_own_entries)
  moreover have "set (map opt_value (fieldOptionsUnion options1 options2)) =
      opt_value ` set options1 \<union> opt_value ` set options2"
  proof -
    have "set (map fst (own_entries merged)) = dom (map_of merged)"
      by (simp add: set_own_entries dom_map_of_conv_image_fst)
    also have "\<dots> = opt_value ` set options1 \<union> opt_value ` set options2"
      by (auto simp: m dom_latest)
    finally show ?thesis unfolding out keys .
  qed
  moreover have "\<forall>opt \<in> set (fieldOptionsUnion options1 options2).
      (latest options1 ++ latest options2) (opt_value opt) = Some opt"
    unfolding out using key by (auto simp: set_own_entries)
  ultimately show ?thesis by blast
qed

text \<open>
  C5. For all option lists \<open>optionsA\<close> and \<open>optionsB\<close>, \<open>fieldOptionsUnion\<close> returns
  exactly one option for each value that occurs in \<open>optionsA\<close> or \<open>optionsB\<close>: the
  values of the output are pairwise distinct, also when the inputs have duplicates, and
  they are the values of the two inputs. The returned option for a value that occurs in
  \<open>optionsB\<close> is an option of \<open>optionsB\<close>; for any other value it is an option of
  \<open>optionsA\<close>. In particular
  \<open>fieldOptionsUnion([{value:"yes",label:"Yes"}],
  [{value:"yes",label:"Y"},{value:"no",label:"No"}])\<close> has the entries for \<open>"yes"\<close>
  (label \<open>"Y"\<close>) and \<open>"no"\<close>.
\<close>

theorem fieldOptionsUnion_by_value:
  "distinct (map opt_value (fieldOptionsUnion optionsA optionsB)) \<and>
   set (map opt_value (fieldOptionsUnion optionsA optionsB)) =
     opt_value ` set optionsA \<union> opt_value ` set optionsB \<and>
   (\<forall>opt \<in> set (fieldOptionsUnion optionsA optionsB).
      if opt_value opt \<in> opt_value ` set optionsB then opt \<in> set optionsB
      else opt \<in> set optionsA) \<and>
   fieldOptionsUnion [\<lparr>opt_value = ''yes'', opt_label = ''Yes''\<rparr>]
     [\<lparr>opt_value = ''yes'', opt_label = ''Y''\<rparr>, \<lparr>opt_value = ''no'', opt_label = ''No''\<rparr>] =
     [\<lparr>opt_value = ''yes'', opt_label = ''Y''\<rparr>, \<lparr>opt_value = ''no'', opt_label = ''No''\<rparr>]"
proof (intro conjI ballI)
  show "distinct (map opt_value (fieldOptionsUnion optionsA optionsB))"
    using fieldOptionsUnion_props[of optionsA optionsB] by blast
next
  show "set (map opt_value (fieldOptionsUnion optionsA optionsB)) =
      opt_value ` set optionsA \<union> opt_value ` set optionsB"
    using fieldOptionsUnion_props[of optionsA optionsB] by blast
next
  fix opt
  assume "opt \<in> set (fieldOptionsUnion optionsA optionsB)"
  then have l: "(latest optionsA ++ latest optionsB) (opt_value opt) = Some opt"
    using fieldOptionsUnion_props[of optionsA optionsB] by blast
  show "if opt_value opt \<in> opt_value ` set optionsB then opt \<in> set optionsB
      else opt \<in> set optionsA"
  proof (cases "latest optionsB (opt_value opt)")
    case None
    then have "opt_value opt \<notin> opt_value ` set optionsB"
      using dom_latest[of optionsB] by blast
    moreover from l None have "latest optionsA (opt_value opt) = Some opt"
      by (simp add: map_add_def)
    ultimately show ?thesis by (auto dest: latest_Some)
  next
    case (Some b)
    then have "opt_value opt \<in> opt_value ` set optionsB"
      using dom_latest[of optionsB] by blast
    moreover from l Some have "latest optionsB (opt_value opt) = Some opt"
      by (simp add: map_add_def)
    ultimately show ?thesis by (auto dest: latest_Some)
  qed
next
  show "fieldOptionsUnion [\<lparr>opt_value = ''yes'', opt_label = ''Yes''\<rparr>]
     [\<lparr>opt_value = ''yes'', opt_label = ''Y''\<rparr>, \<lparr>opt_value = ''no'', opt_label = ''No''\<rparr>] =
     [\<lparr>opt_value = ''yes'', opt_label = ''Y''\<rparr>, \<lparr>opt_value = ''no'', opt_label = ''No''\<rparr>]"
    by (simp add: fieldOptionsUnion_def options_map_def spread_def own_entries_def
        Object_values_def array_index_def is_digit_def)
qed

theorem fieldOptionsUnion_by_value_witness:
  "fieldOptionsUnion
     [\<lparr>opt_value = ''b'', opt_label = ''B''\<rparr>, \<lparr>opt_value = ''7'', opt_label = ''seven''\<rparr>,
      \<lparr>opt_value = ''b'', opt_label = ''B2''\<rparr>]
     [\<lparr>opt_value = ''7'', opt_label = ''Seven''\<rparr>] =
     [\<lparr>opt_value = ''7'', opt_label = ''Seven''\<rparr>, \<lparr>opt_value = ''b'', opt_label = ''B2''\<rparr>] \<and>
   distinct (map opt_value
     [\<lparr>opt_value = ''7'', opt_label = ''Seven''\<rparr>, \<lparr>opt_value = ''b'', opt_label = ''B2''\<rparr>]) \<and>
   \<lparr>opt_value = ''7'', opt_label = ''Seven''\<rparr> \<in> set [\<lparr>opt_value = ''7'', opt_label = ''Seven''\<rparr>]"
proof -
  have run: "fieldOptionsUnion
     [\<lparr>opt_value = ''b'', opt_label = ''B''\<rparr>, \<lparr>opt_value = ''7'', opt_label = ''seven''\<rparr>,
      \<lparr>opt_value = ''b'', opt_label = ''B2''\<rparr>]
     [\<lparr>opt_value = ''7'', opt_label = ''Seven''\<rparr>] =
     [\<lparr>opt_value = ''7'', opt_label = ''Seven''\<rparr>, \<lparr>opt_value = ''b'', opt_label = ''B2''\<rparr>]"
    by (simp add: fieldOptionsUnion_def options_map_def spread_def own_entries_def
        Object_values_def array_index_def is_digit_def dec_value_def index_key_def)
  show ?thesis
    using fieldOptionsUnion_by_value[of
      "[\<lparr>opt_value = ''b'', opt_label = ''B''\<rparr>, \<lparr>opt_value = ''7'', opt_label = ''seven''\<rparr>,
        \<lparr>opt_value = ''b'', opt_label = ''B2''\<rparr>]"
      "[\<lparr>opt_value = ''7'', opt_label = ''Seven''\<rparr>]"]
    unfolding run by simp
qed

section \<open>The store is only extended\<close>

lemma extends_refl: "extends s s"
  by (simp add: extends_def unchanged_def same_at_def)

lemma extends_trans: "extends s s' \<Longrightarrow> extends s' s'' \<Longrightarrow> extends s s''"
  by (auto simp: extends_def unchanged_def same_at_def)

lemma extends_limit: "extends s s' \<Longrightarrow> limit s \<le> limit s'"
  by (simp add: extends_def)

lemma new_string_array_extends:
  "extends s0 s \<Longrightarrow> new_string_array xs s = (a, s') \<Longrightarrow> extends s0 s' \<and> a = limit s \<and> limit s0 \<le> a"
  by (auto simp: new_string_array_def extends_def unchanged_def same_at_def)

lemma new_entry_array_extends:
  "extends s0 s \<Longrightarrow> new_entry_array es s = (a, s') \<Longrightarrow> extends s0 s' \<and> a = limit s \<and> limit s0 \<le> a"
  by (auto simp: new_entry_array_def extends_def unchanged_def same_at_def)

lemma new_count_map_extends:
  "extends s0 s \<Longrightarrow> new_count_map s = (a, s') \<Longrightarrow> extends s0 s' \<and> a = limit s \<and> limit s0 \<le> a"
  by (auto simp: new_count_map_def extends_def unchanged_def same_at_def)

lemma new_value_set_extends:
  "extends s0 s \<Longrightarrow> new_value_set s = (a, s') \<Longrightarrow> extends s0 s' \<and> a = limit s \<and> limit s0 \<le> a"
  by (auto simp: new_value_set_def extends_def unchanged_def same_at_def)

lemma new_keyed_object_extends:
  "extends s0 s \<Longrightarrow> new_keyed_object obj s = (a, s') \<Longrightarrow> extends s0 s' \<and> a = limit s \<and> limit s0 \<le> a"
  by (auto simp: new_keyed_object_def extends_def unchanged_def same_at_def)

lemma push_string_extends: "limit s0 \<le> arr \<Longrightarrow> extends s0 s \<Longrightarrow> extends s0 (push_string arr item s)"
  by (auto simp: push_string_def extends_def unchanged_def same_at_def)

lemma push_entry_extends: "limit s0 \<le> arr \<Longrightarrow> extends s0 s \<Longrightarrow> extends s0 (push_entry arr e s)"
  by (auto simp: push_entry_def extends_def unchanged_def same_at_def)

lemma write_count_map_extends:
  "limit s0 \<le> m \<Longrightarrow> extends s0 s \<Longrightarrow> extends s0 (write_count_map m cm s)"
  by (auto simp: write_count_map_def extends_def unchanged_def same_at_def)

lemma set_add_extends: "limit s0 \<le> st \<Longrightarrow> extends s0 s \<Longrightarrow> extends s0 (set_add st v s)"
  by (auto simp: set_add_def extends_def unchanged_def same_at_def)

lemma fold_extends:
  assumes "\<And>x s. extends s0 s \<Longrightarrow> extends s0 (f x s)"
  shows "extends s0 s \<Longrightarrow> extends s0 (fold f xs s)"
  by (induction xs arbitrary: s) (simp_all add: assms)

lemma count_item_st_extends:
  "limit s0 \<le> countMap \<Longrightarrow> extends s0 s \<Longrightarrow> extends s0 (count_item_st countMap item s)"
  by (simp add: count_item_st_def write_count_map_extends)

lemma take_item_st_extends:
  "limit s0 \<le> result \<Longrightarrow> limit s0 \<le> countMap \<Longrightarrow> extends s0 s \<Longrightarrow>
   extends s0 (take_item_st result countMap item s)"
  by (simp add: take_item_st_def Let_def write_count_map_extends push_string_extends
      split: option.splits)

lemma order_step_st_extends:
  "limit s0 \<le> result \<Longrightarrow> limit s0 \<le> countMap \<Longrightarrow> extends s0 s \<Longrightarrow>
   extends s0 (order_step_st result countMap item s)"
  by (simp add: order_step_st_def take_item_st_extends)

lemma orderedList_st_extends: "extends s (snd (orderedList_st list1 list2 s))"
proof (cases "isArray_ref list1 = Inr True \<and> isArray_ref list2 = Inr True")
  case False
  then show ?thesis
    using new_string_array_extends[OF extends_refl, of "[]" s]
    by (cases "isArray_ref list1"; cases "isArray_ref list2")
      (auto simp: orderedList_st_def extends_refl split: prod.splits)
next
  case True
  then obtain a b where l: "list1 = RArray a" "list2 = RArray b"
    by (cases list1; cases list2) simp_all
  obtain result s1 where r1: "new_string_array [] s = (result, s1)"
    by (cases "new_string_array [] s")
  obtain remaining s2 where r2:
    "new_string_array (filter truthy_string (string_arrays s1 a)) s1 = (remaining, s2)"
    by (cases "new_string_array (filter truthy_string (string_arrays s1 a)) s1")
  obtain countMap s3 where r3: "new_count_map s2 = (countMap, s3)"
    by (cases "new_count_map s2")
  define s4 where "s4 = fold (count_item_st countMap) (string_arrays s3 remaining) s3"
  define s5 where "s5 = fold (order_step_st result countMap) (string_arrays s4 b) s4"
  define s6 where "s6 = fold (take_item_st result countMap) (string_arrays s5 remaining) s5"
  from new_string_array_extends[OF extends_refl r1]
  have e1: "extends s s1" and res: "limit s \<le> result" by simp_all
  from new_string_array_extends[OF e1 r2] have e2: "extends s s2" by simp
  from new_count_map_extends[OF e2 r3]
  have e3: "extends s s3" and cm: "limit s \<le> countMap" by simp_all
  have e4: "extends s s4"
    unfolding s4_def using cm e3 by (intro fold_extends count_item_st_extends)
  have e5: "extends s s5"
    unfolding s5_def using res cm e4 by (intro fold_extends order_step_st_extends)
  have e6: "extends s s6"
    unfolding s6_def using res cm e5 by (intro fold_extends take_item_st_extends)
  have "orderedList_st list1 list2 s = (Inr (RArray result), s6)"
    by (simp add: orderedList_st_def l r1 r2 r3 s4_def s5_def s6_def Let_def)
  with e6 show ?thesis by simp
qed

lemma dedup_loop_st_extends:
  "limit s0 \<le> seenValues \<Longrightarrow> limit s0 \<le> deduplicatedOptions \<Longrightarrow> extends s0 s \<Longrightarrow>
   extends s0 (snd (dedup_loop_st seenValues deduplicatedOptions es s))"
proof (induction es arbitrary: s)
  case Nil
  then show ?case by simp
next
  case (Cons e es)
  show ?case
  proof (cases e)
    case (OptionRef a)
    let ?v = "opt_value (option_objects s a)"
    have "extends s0 (push_entry deduplicatedOptions e (set_add seenValues ?v s))"
      using Cons.prems by (simp add: push_entry_extends set_add_extends)
    from Cons.IH[OF Cons.prems(1,2) this] Cons.IH[OF Cons.prems] OptionRef
    show ?thesis by simp
  qed (simp_all add: Cons.prems)
qed

lemma deduplicateOptions_st_extends: "extends s (snd (deduplicateOptions_st options s))"
proof -
  obtain seenValues s1 where r1: "new_value_set s = (seenValues, s1)"
    by (cases "new_value_set s")
  obtain deduplicatedOptions s2 where r2: "new_entry_array [] s1 = (deduplicatedOptions, s2)"
    by (cases "new_entry_array [] s1")
  from new_value_set_extends[OF extends_refl r1]
  have e1: "extends s s1" and sv: "limit s \<le> seenValues" by simp_all
  from new_entry_array_extends[OF e1 r2]
  have e2: "extends s s2" and dd: "limit s \<le> deduplicatedOptions" by simp_all
  show ?thesis
  proof (cases "entry_elements s2 options")
    case (Inl e)
    with e2 show ?thesis by (simp add: deduplicateOptions_st_def r1 r2)
  next
    case (Inr elements)
    obtain present s3 where r3: "new_entry_array (filter truthy_ref elements) s2 = (present, s3)"
      by (cases "new_entry_array (filter truthy_ref elements) s2")
    from new_entry_array_extends[OF e2 r3] have e3: "extends s s3" by simp
    have "extends s (snd (dedup_loop_st seenValues deduplicatedOptions (entry_arrays s3 present) s3))"
      using sv dd e3 by (rule dedup_loop_st_extends)
    then show ?thesis
      by (auto simp: deduplicateOptions_st_def r1 r2 r3 Inr split: prod.splits option.splits)
  qed
qed

lemma reduce_st_extends: "extends s0 s \<Longrightarrow> extends s0 (snd (reduce_st es acc s))"
proof (induction es arbitrary: acc s)
  case Nil
  then show ?case by simp
next
  case (Cons e es)
  show ?case
  proof (cases e)
    case (OptionRef a)
    obtain acc' s1 where r: "new_keyed_object
        (obj_set (opt_value (option_objects s a)) a (spread (keyed_objects s acc) [])) s = (acc', s1)"
      by (cases "new_keyed_object
        (obj_set (opt_value (option_objects s a)) a (spread (keyed_objects s acc) [])) s")
    from new_keyed_object_extends[OF Cons.prems r] have "extends s0 s1" by simp
    from Cons.IH[OF this, of acc'] OptionRef r show ?thesis by simp
  qed (simp_all add: Cons.prems)
qed

lemma options_map_st_extends: "extends s0 s \<Longrightarrow> extends s0 (snd (options_map_st options s))"
proof (cases "entry_elements s options")
  case (Inl e)
  assume "extends s0 s"
  with Inl show ?thesis by (simp add: options_map_st_def)
next
  case (Inr elements)
  assume e: "extends s0 s"
  obtain initial s1 where r: "new_keyed_object [] s = (initial, s1)"
    by (cases "new_keyed_object ([] :: addr js_object) s")
  from new_keyed_object_extends[OF e r] have "extends s0 s1" by simp
  from reduce_st_extends[OF this, of elements initial] Inr r show ?thesis
    by (simp add: options_map_st_def)
qed

lemma fieldOptionsUnion_st_extends: "extends s (snd (fieldOptionsUnion_st options1 options2 s))"
proof -
  obtain r1 s1 where m1: "options_map_st options1 s = (r1, s1)"
    by (cases "options_map_st options1 s")
  obtain r2 s2 where m2: "options_map_st options2 s1 = (r2, s2)"
    by (cases "options_map_st options2 s1")
  from options_map_st_extends[OF extends_refl, of s options1] m1 have e1: "extends s s1" by simp
  from options_map_st_extends[OF e1, of options2] m2 have e2: "extends s s2" by simp
  show ?thesis
  proof (cases r1)
    case (Inl e)
    with e1 m1 show ?thesis by (simp add: fieldOptionsUnion_st_def)
  next
    case a: (Inr options1Map)
    show ?thesis
    proof (cases r2)
      case (Inl e)
      with e2 m1 m2 a show ?thesis by (simp add: fieldOptionsUnion_st_def)
    next
      case b: (Inr options2Map)
      obtain merged s3 where r3: "new_keyed_object
          (spread (keyed_objects s2 options2Map) (spread (keyed_objects s2 options1Map) [])) s2 = (merged, s3)"
        by (cases "new_keyed_object
          (spread (keyed_objects s2 options2Map) (spread (keyed_objects s2 options1Map) [])) s2")
      obtain vals s4 where r4:
        "new_entry_array (map OptionRef (Object_values (keyed_objects s3 merged))) s3 = (vals, s4)"
        by (cases "new_entry_array (map OptionRef (Object_values (keyed_objects s3 merged))) s3")
      from new_keyed_object_extends[OF e2 r3] have e3: "extends s s3" by simp
      from new_entry_array_extends[OF e3 r4] have "extends s s4" by simp
      with m1 m2 a b r3 r4 show ?thesis by (simp add: fieldOptionsUnion_st_def)
    qed
  qed
qed

section \<open>The store functions return the values of the value functions\<close>

lemma count_item_st_view:
  "count_maps (count_item_st c x s) c = count_item x (count_maps s c) \<and>
   string_arrays (count_item_st c x s) = string_arrays s"
  by (simp add: count_item_st_def write_count_map_def)

lemma fold_count_item_st_view:
  "count_maps (fold (count_item_st c) xs s) c = fold count_item xs (count_maps s c) \<and>
   string_arrays (fold (count_item_st c) xs s) = string_arrays s"
  by (induction xs arbitrary: s) (simp_all add: count_item_st_view)

lemma take_item_st_view: "view r c (take_item_st r c x s) = take_item x (view r c s)"
  by (simp add: view_def take_item_st_def take_item_def push_string_def write_count_map_def
      Let_def split: option.splits)

lemma take_item_st_others: "a \<noteq> r \<Longrightarrow> string_arrays (take_item_st r c x s) a = string_arrays s a"
  by (simp add: take_item_st_def push_string_def write_count_map_def Let_def split: option.splits)

lemma order_step_st_view: "view r c (order_step_st r c x s) = order_step x (view r c s)"
  by (simp add: order_step_st_def order_step_def take_item_st_view)

lemma order_step_st_others: "a \<noteq> r \<Longrightarrow> string_arrays (order_step_st r c x s) a = string_arrays s a"
  by (simp add: order_step_st_def take_item_st_others)

lemma fold_take_item_st_view:
  "view r c (fold (take_item_st r c) xs s) = fold take_item xs (view r c s)"
  by (induction xs arbitrary: s) (simp_all add: take_item_st_view)

lemma fold_take_item_st_others:
  "a \<noteq> r \<Longrightarrow> string_arrays (fold (take_item_st r c) xs s) a = string_arrays s a"
  by (induction xs arbitrary: s) (simp_all add: take_item_st_others)

lemma fold_order_step_st_view:
  "view r c (fold (order_step_st r c) xs s) = fold order_step xs (view r c s)"
  by (induction xs arbitrary: s) (simp_all add: order_step_st_view)

lemma fold_order_step_st_others:
  "a \<noteq> r \<Longrightarrow> string_arrays (fold (order_step_st r c) xs s) a = string_arrays s a"
  by (induction xs arbitrary: s) (simp_all add: order_step_st_others)

lemma orderedList_st_arrays:
  assumes "a < limit s" "b < limit s"
  shows "\<exists>r s'. orderedList_st (RArray a) (RArray b) s = (Inr (RArray r), s') \<and>
     orderedList (JArray (string_arrays s a)) (JArray (string_arrays s b)) =
       Inr (JArray (string_arrays s' r))"
proof -
  let ?rem = "filter truthy_string (string_arrays s a)"
  define r where "r = limit s"
  define m where "m = Suc r"
  define c where "c = Suc m"
  define s1 where "s1 = snd (new_string_array [] s)"
  define s2 where "s2 = snd (new_string_array ?rem s1)"
  define s3 where "s3 = snd (new_count_map s2)"
  define s4 where "s4 = fold (count_item_st c) ?rem s3"
  define s5 where "s5 = fold (order_step_st r c) (string_arrays s b) s4"
  define s6 where "s6 = fold (take_item_st r c) ?rem s5"
  have n1: "new_string_array [] s = (r, s1)"
    by (simp add: new_string_array_def r_def s1_def)
  have a1: "string_arrays s1 a = string_arrays s a" and b1: "string_arrays s1 b = string_arrays s b"
    using assms by (simp_all add: new_string_array_def s1_def)
  have n2: "new_string_array ?rem s1 = (m, s2)"
    by (simp add: new_string_array_def m_def r_def s1_def s2_def)
  have n3: "new_count_map s2 = (c, s3)"
    by (simp add: new_count_map_def new_string_array_def c_def m_def r_def s1_def s2_def s3_def)
  have arr3: "string_arrays s3 = (string_arrays s)(r := [], m := ?rem)"
    by (simp add: new_count_map_def new_string_array_def m_def r_def s1_def s2_def s3_def)
  have cm3: "count_maps s3 c = Map.empty"
    by (simp add: new_count_map_def new_string_array_def c_def m_def r_def s1_def s2_def s3_def)
  have ne: "m \<noteq> r" "b \<noteq> r" "b \<noteq> m"
    using assms by (simp_all add: m_def r_def)
  have arr4: "string_arrays s4 = (string_arrays s)(r := [], m := ?rem)"
    and cm4: "count_maps s4 c = fold count_item ?rem Map.empty"
    using fold_count_item_st_view[of c ?rem s3] by (simp_all add: s4_def arr3 cm3)
  have rem3: "string_arrays s3 m = ?rem" by (simp add: arr3)
  have b4: "string_arrays s4 b = string_arrays s b" using ne by (simp add: arr4)
  have v4: "view r c s4 = ([], fold count_item ?rem Map.empty)"
    using ne by (simp add: view_def arr4 cm4)
  have v5: "view r c s5 = fold order_step (string_arrays s b) ([], fold count_item ?rem Map.empty)"
    by (simp add: s5_def fold_order_step_st_view v4)
  have rem5: "string_arrays s5 m = ?rem"
    using ne by (simp add: s5_def fold_order_step_st_others arr4)
  have v6: "view r c s6 =
      fold take_item ?rem (fold order_step (string_arrays s b) ([], fold count_item ?rem Map.empty))"
    by (simp add: s6_def fold_take_item_st_view v5)
  have run: "orderedList_st (RArray a) (RArray b) s = (Inr (RArray r), s6)"
    by (simp add: orderedList_st_def n1 a1 n2 n3 rem3 b4 rem5 Let_def
        s4_def[symmetric] s5_def[symmetric] s6_def[symmetric])
  have "orderedList (JArray (string_arrays s a)) (JArray (string_arrays s b)) =
      Inr (JArray (fst (view r c s6)))"
    by (simp add: orderedList_def v6 Let_def)
  then show ?thesis using run by (simp add: view_def)
qed

lemma isArray_string_value: "isArray (string_value s v) = isArray_ref v"
  by (cases v) simp_all

lemma isArray_ref_True: "isArray_ref v = Inr True \<Longrightarrow> \<exists>a. v = RArray a"
  by (cases v) simp_all

lemma orderedList_st_value:
  assumes "exists_in s list1" "exists_in s list2"
  shows "map_sum id (string_value (snd (orderedList_st list1 list2 s)))
           (fst (orderedList_st list1 list2 s)) =
         orderedList (string_value s list1) (string_value s list2)"
proof (cases "isArray_ref list1 = Inr True \<and> isArray_ref list2 = Inr True")
  case True
  then obtain a b where "list1 = RArray a" "list2 = RArray b"
    using isArray_ref_True[of list1] isArray_ref_True[of list2] by blast
  with orderedList_st_arrays[of a s b] assms show ?thesis by auto
next
  case False
  show ?thesis
  proof (cases "isArray_ref list1")
    case (Inl e)
    then show ?thesis
      by (simp add: orderedList_st_def orderedList_def isArray_string_value)
  next
    case l1: (Inr array1)
    show ?thesis
    proof (cases array1)
      case False
      with l1 show ?thesis
        by (simp add: orderedList_st_def orderedList_def isArray_string_value
            new_string_array_def)
    next
      case True
      with l1 False show ?thesis
        by (cases "isArray_ref list2")
          (simp_all add: orderedList_st_def orderedList_def isArray_string_value)
    qed
  qed
qed

lemma entry_of_cong: "option_objects s' = option_objects s \<Longrightarrow> entry_of s' = entry_of s"
proof
  fix e
  assume "option_objects s' = option_objects s"
  then show "entry_of s' e = entry_of s e" by (cases e) simp_all
qed

lemma truthy_entry_of: "truthy_entry (entry_of s e) = truthy_ref e"
  by (cases e) simp_all

lemma filter_entry_of:
  "filter truthy_entry (map (entry_of s) es) = map (entry_of s) (filter truthy_ref es)"
  by (induction es) (simp_all add: truthy_entry_of)

lemma dedup_loop_st_value:
  "\<exists>err s'. dedup_loop_st sv dd es s = (err, s') \<and> option_objects s' = option_objects s \<and>
     dedup_loop (map (entry_of s) es) (value_sets s sv, map (entry_of s) (entry_arrays s dd)) =
       (case err of
          Some e \<Rightarrow> Inl e
        | None \<Rightarrow> Inr (value_sets s' sv, map (entry_of s) (entry_arrays s' dd)))"
proof (induction es arbitrary: s)
  case Nil
  then show ?case by simp
next
  case (Cons e es)
  show ?case
  proof (cases e)
    case (OptionRef x)
    let ?v = "opt_value (option_objects s x)"
    show ?thesis
    proof (cases "?v \<in> value_sets s sv")
      case True
      with Cons.IH[of s] OptionRef show ?thesis by simp
    next
      case False
      let ?s = "push_entry dd (OptionRef x) (set_add sv ?v s)"
      have o: "option_objects ?s = option_objects s"
        by (simp add: push_entry_def set_add_def)
      have v: "value_sets ?s sv = insert ?v (value_sets s sv)"
        by (simp add: push_entry_def set_add_def)
      have d: "entry_arrays ?s dd = entry_arrays s dd @ [OptionRef x]"
        by (simp add: push_entry_def set_add_def)
      obtain err s' where l: "dedup_loop_st sv dd es ?s = (err, s')"
        and o': "option_objects s' = option_objects ?s"
        and r: "dedup_loop (map (entry_of ?s) es)
            (value_sets ?s sv, map (entry_of ?s) (entry_arrays ?s dd)) =
          (case err of
             Some e \<Rightarrow> Inl e
           | None \<Rightarrow> Inr (value_sets s' sv, map (entry_of ?s) (entry_arrays s' dd)))"
        using Cons.IH[of ?s] by blast
      have eo: "entry_of ?s = entry_of s" using o by (rule entry_of_cong)
      from r have "dedup_loop (map (entry_of s) (e # es))
            (value_sets s sv, map (entry_of s) (entry_arrays s dd)) =
          (case err of
             Some e \<Rightarrow> Inl e
           | None \<Rightarrow> Inr (value_sets s' sv, map (entry_of s) (entry_arrays s' dd)))"
        unfolding eo v d using False OptionRef by simp
      moreover have "dedup_loop_st sv dd (e # es) s = (err, s')"
        using False OptionRef l by simp
      moreover have "option_objects s' = option_objects s"
        using o' o by simp
      ultimately show ?thesis by blast
    qed
  qed simp_all
qed

lemma deduplicateOptions_st_value:
  assumes "exists_in s options"
  shows "map_sum id (entries_value (snd (deduplicateOptions_st options s)))
           (fst (deduplicateOptions_st options s)) =
         deduplicateOptions (entries_value s options)"
proof (cases "isArray_ref options = Inr True")
  case False
  then have "entry_elements s' options = Inl TypeError" for s'
    by (cases options) simp_all
  moreover from False have "array_filter truthy_entry (entries_value s options) = Inl TypeError"
    by (cases options) simp_all
  ultimately show ?thesis
    by (simp add: deduplicateOptions_st_def deduplicateOptions_def split: prod.splits)
next
  case True
  then obtain a where a: "options = RArray a" by (cases options) simp_all
  with assms have lt: "a < limit s" by simp
  define sv where "sv = limit s"
  define dd where "dd = Suc sv"
  define pr where "pr = Suc dd"
  define s1 where "s1 = snd (new_value_set s)"
  define s2 where "s2 = snd (new_entry_array [] s1)"
  define s3 where "s3 = snd (new_entry_array (filter truthy_ref (entry_arrays s a)) s2)"
  have n1: "new_value_set s = (sv, s1)"
    by (simp add: new_value_set_def sv_def s1_def)
  have n2: "new_entry_array [] s1 = (dd, s2)"
    by (simp add: new_entry_array_def new_value_set_def dd_def sv_def s1_def s2_def)
  have a2: "entry_arrays s2 a = entry_arrays s a"
    using lt by (simp add: new_entry_array_def new_value_set_def s1_def s2_def)
  have n3: "new_entry_array (filter truthy_ref (entry_arrays s a)) s2 = (pr, s3)"
    by (simp add: new_entry_array_def new_value_set_def pr_def dd_def sv_def s1_def s2_def s3_def)
  have p3: "entry_arrays s3 pr = filter truthy_ref (entry_arrays s a)"
    and d3: "entry_arrays s3 dd = []" and v3: "value_sets s3 sv = {}"
    and o3: "option_objects s3 = option_objects s"
    by (simp_all add: new_entry_array_def new_value_set_def pr_def dd_def sv_def s1_def s2_def s3_def)
  obtain err s4 where loop: "dedup_loop_st sv dd (entry_arrays s3 pr) s3 = (err, s4)"
    and o4: "option_objects s4 = option_objects s3"
    and val: "dedup_loop (map (entry_of s3) (entry_arrays s3 pr))
        (value_sets s3 sv, map (entry_of s3) (entry_arrays s3 dd)) =
       (case err of
          Some e \<Rightarrow> Inl e
        | None \<Rightarrow> Inr (value_sets s4 sv, map (entry_of s3) (entry_arrays s4 dd)))"
    using dedup_loop_st_value[of sv dd "entry_arrays s3 pr" s3] by blast
  have e3: "entry_of s3 = entry_of s" using o3 by (rule entry_of_cong)
  have e4: "entry_of s4 = entry_of s" using o4 o3 by (intro entry_of_cong) simp
  have st: "deduplicateOptions_st options s =
      (case err of Some e \<Rightarrow> (Inl e, s4) | None \<Rightarrow> (Inr (RArray dd), s4))"
    by (simp add: deduplicateOptions_st_def a n1 n2 a2 n3 loop split: option.splits)
  have "deduplicateOptions (entries_value s options) =
      (case err of Some e \<Rightarrow> Inl e | None \<Rightarrow> Inr (JArray (map (entry_of s) (entry_arrays s4 dd))))"
    using val
    by (simp add: deduplicateOptions_def a filter_entry_of p3 d3 v3 e3 split: option.splits)
  with st show ?thesis by (simp add: e4 split: option.splits)
qed

lemma obj_set_apsnd: "obj_set k (f v) (map (apsnd f) obj) = map (apsnd f) (obj_set k v obj)"
  by (induction obj) simp_all

lemma insort_key_apsnd:
  "insort_key index_key (apsnd f p) (map (apsnd f) ps) = map (apsnd f) (insort_key index_key p ps)"
  by (induction ps) (simp_all add: index_key_def)

lemma sort_key_apsnd:
  "sort_key index_key (map (apsnd f) ps) = map (apsnd f) (sort_key index_key ps)"
  by (induction ps) (simp_all add: insort_key_apsnd)

lemma own_entries_apsnd: "own_entries (map (apsnd f) obj) = map (apsnd f) (own_entries obj)"
  by (simp add: own_entries_def filter_map o_def sort_key_apsnd)

lemma fold_obj_set_apsnd:
  "fold (\<lambda>p obj. obj_set (fst p) (snd p) obj) (map (apsnd f) es) (map (apsnd f) target) =
   map (apsnd f) (fold (\<lambda>p obj. obj_set (fst p) (snd p) obj) es target)"
  by (induction es arbitrary: target) (simp_all add: obj_set_apsnd)

lemma spread_apsnd:
  "spread (map (apsnd f) src) (map (apsnd f) target) = map (apsnd f) (spread src target)"
  by (simp add: spread_def own_entries_apsnd fold_obj_set_apsnd)

lemma spread_apsnd_Nil: "spread (map (apsnd f) src) [] = map (apsnd f) (spread src [])"
  using spread_apsnd[of f src "[]"] by simp

lemma Object_values_apsnd: "Object_values (map (apsnd f) obj) = map f (Object_values obj)"
  by (simp add: Object_values_def own_entries_apsnd)

lemma reduce_st_value:
  "\<exists>acc' s'. reduce_st (map OptionRef xs) acc s = (Inr acc', s') \<and>
     map (apsnd (option_objects s)) (keyed_objects s' acc') =
       fold (\<lambda>option acc. obj_set (opt_value option) option (spread acc []))
         (map (option_objects s) xs) (map (apsnd (option_objects s)) (keyed_objects s acc)) \<and>
     option_objects s' = option_objects s \<and> entry_arrays s' = entry_arrays s \<and>
     limit s \<le> limit s' \<and> (acc < limit s \<longrightarrow> acc' < limit s') \<and>
     (\<forall>b < limit s. keyed_objects s' b = keyed_objects s b)"
proof (induction xs arbitrary: acc s)
  case Nil
  then show ?case by simp
next
  case (Cons x xs)
  let ?oo = "option_objects s"
  let ?obj = "obj_set (opt_value (?oo x)) x (spread (keyed_objects s acc) [])"
  define s1 where "s1 = snd (new_keyed_object ?obj s)"
  have n: "new_keyed_object ?obj s = (limit s, s1)"
    by (simp add: new_keyed_object_def s1_def)
  have k1: "keyed_objects s1 (limit s) = ?obj" and o1: "option_objects s1 = ?oo"
    and e1: "entry_arrays s1 = entry_arrays s" and l1: "limit s1 = Suc (limit s)"
    and old: "\<forall>b < limit s. keyed_objects s1 b = keyed_objects s b"
    by (simp_all add: new_keyed_object_def s1_def)
  obtain acc' s' where r: "reduce_st (map OptionRef xs) (limit s) s1 = (Inr acc', s')"
    and m: "map (apsnd (option_objects s1)) (keyed_objects s' acc') =
       fold (\<lambda>option acc. obj_set (opt_value option) option (spread acc []))
         (map (option_objects s1) xs) (map (apsnd (option_objects s1)) (keyed_objects s1 (limit s)))"
    and rest: "option_objects s' = option_objects s1" "entry_arrays s' = entry_arrays s1"
      "limit s1 \<le> limit s'" "limit s < limit s1 \<longrightarrow> acc' < limit s'"
      "\<forall>b < limit s1. keyed_objects s' b = keyed_objects s1 b"
    using Cons.IH[of "limit s" s1] by blast
  have step: "map (apsnd ?oo) ?obj =
      obj_set (opt_value (?oo x)) (?oo x) (spread (map (apsnd ?oo) (keyed_objects s acc)) [])"
    by (simp add: obj_set_apsnd spread_apsnd_Nil)
  have "reduce_st (map OptionRef (x # xs)) acc s = (Inr acc', s')"
    using n r by simp
  moreover have "map (apsnd ?oo) (keyed_objects s' acc') =
       fold (\<lambda>option acc. obj_set (opt_value option) option (spread acc []))
         (map ?oo (x # xs)) (map (apsnd ?oo) (keyed_objects s acc))"
    using m unfolding o1 k1 step by simp
  moreover have "option_objects s' = ?oo" "entry_arrays s' = entry_arrays s"
    "limit s \<le> limit s'" "acc < limit s \<longrightarrow> acc' < limit s'"
    "\<forall>b < limit s. keyed_objects s' b = keyed_objects s b"
    using rest o1 e1 l1 old by auto
  ultimately show ?case by blast
qed

lemma options_map_st_value:
  assumes "entry_arrays s a = map OptionRef xs"
  shows "\<exists>m s'. options_map_st (RArray a) s = (Inr m, s') \<and>
     map (apsnd (option_objects s)) (keyed_objects s' m) = options_map (map (option_objects s) xs) \<and>
     option_objects s' = option_objects s \<and> entry_arrays s' = entry_arrays s \<and>
     limit s \<le> limit s' \<and> m < limit s' \<and>
     (\<forall>b < limit s. keyed_objects s' b = keyed_objects s b)"
proof -
  define s1 where "s1 = snd (new_keyed_object ([] :: addr js_object) s)"
  have n: "new_keyed_object [] s = (limit s, s1)"
    by (simp add: new_keyed_object_def s1_def)
  have k1: "keyed_objects s1 (limit s) = []" and o1: "option_objects s1 = option_objects s"
    and e1: "entry_arrays s1 = entry_arrays s" and l1: "limit s1 = Suc (limit s)"
    and old: "\<forall>b < limit s. keyed_objects s1 b = keyed_objects s b"
    by (simp_all add: new_keyed_object_def s1_def)
  obtain m s' where r: "reduce_st (map OptionRef xs) (limit s) s1 = (Inr m, s')"
    and v: "map (apsnd (option_objects s1)) (keyed_objects s' m) =
       fold (\<lambda>option acc. obj_set (opt_value option) option (spread acc []))
         (map (option_objects s1) xs) (map (apsnd (option_objects s1)) (keyed_objects s1 (limit s)))"
    and rest: "option_objects s' = option_objects s1" "entry_arrays s' = entry_arrays s1"
      "limit s1 \<le> limit s'" "limit s < limit s1 \<longrightarrow> m < limit s'"
      "\<forall>b < limit s1. keyed_objects s' b = keyed_objects s1 b"
    using reduce_st_value[of xs "limit s" s1] by blast
  have "options_map_st (RArray a) s = (Inr m, s')"
    using assms n r by (simp add: options_map_st_def)
  moreover have "map (apsnd (option_objects s)) (keyed_objects s' m) =
      options_map (map (option_objects s) xs)"
    using v unfolding o1 k1 by (simp add: options_map_def)
  moreover have "option_objects s' = option_objects s" "entry_arrays s' = entry_arrays s"
    "limit s \<le> limit s'" "m < limit s'" "\<forall>b < limit s. keyed_objects s' b = keyed_objects s b"
    using rest o1 e1 l1 old by auto
  ultimately show ?thesis by blast
qed

lemma fieldOptionsUnion_st_value:
  assumes "entry_arrays s a1 = map OptionRef xs1" "entry_arrays s a2 = map OptionRef xs2"
  shows "\<exists>r s'. fieldOptionsUnion_st (RArray a1) (RArray a2) s = (Inr (RArray r), s') \<and>
     map (entry_of s') (entry_arrays s' r) =
       map OptionEntry
         (fieldOptionsUnion (map (option_objects s) xs1) (map (option_objects s) xs2))"
proof -
  let ?oo = "option_objects s"
  obtain m1 s1 where r1: "options_map_st (RArray a1) s = (Inr m1, s1)"
    and v1: "map (apsnd ?oo) (keyed_objects s1 m1) = options_map (map ?oo xs1)"
    and o1: "option_objects s1 = ?oo" and e1: "entry_arrays s1 = entry_arrays s"
    and lt1: "m1 < limit s1"
    using options_map_st_value[OF assms(1)] by blast
  from assms(2) e1 have a2: "entry_arrays s1 a2 = map OptionRef xs2" by simp
  obtain m2 s2 where r2: "options_map_st (RArray a2) s1 = (Inr m2, s2)"
    and v2: "map (apsnd (option_objects s1)) (keyed_objects s2 m2) =
      options_map (map (option_objects s1) xs2)"
    and o2: "option_objects s2 = option_objects s1"
    and old: "\<forall>b < limit s1. keyed_objects s2 b = keyed_objects s1 b"
    using options_map_st_value[OF a2] by blast
  from old lt1 v1 have v1': "map (apsnd ?oo) (keyed_objects s2 m1) = options_map (map ?oo xs1)"
    by simp
  let ?merged = "spread (keyed_objects s2 m2) (spread (keyed_objects s2 m1) [])"
  define s3 where "s3 = snd (new_keyed_object ?merged s2)"
  define s4 where "s4 = snd (new_entry_array (map OptionRef (Object_values ?merged)) s3)"
  have n3: "new_keyed_object ?merged s2 = (limit s2, s3)"
    by (simp add: new_keyed_object_def s3_def)
  have k3: "keyed_objects s3 (limit s2) = ?merged"
    by (simp add: new_keyed_object_def s3_def)
  have n4: "new_entry_array (map OptionRef (Object_values ?merged)) s3 = (limit s3, s4)"
    by (simp add: new_entry_array_def s4_def)
  have e4: "entry_arrays s4 (limit s3) = map OptionRef (Object_values ?merged)"
    and o4: "option_objects s4 = ?oo"
    by (simp_all add: new_entry_array_def new_keyed_object_def s4_def s3_def o2 o1)
  have run: "fieldOptionsUnion_st (RArray a1) (RArray a2) s = (Inr (RArray (limit s3)), s4)"
    by (simp add: fieldOptionsUnion_st_def r1 r2 n3 k3 n4)
  have "map (entry_of s4) (entry_arrays s4 (limit s3)) =
      map OptionEntry (Object_values (map (apsnd ?oo) ?merged))"
    by (simp add: e4 o4 Object_values_apsnd o_def)
  also have "map (apsnd ?oo) ?merged =
      spread (options_map (map ?oo xs2)) (spread (options_map (map ?oo xs1)) [])"
    using v1' v2 by (simp add: spread_apsnd[symmetric] spread_apsnd_Nil[symmetric] o1)
  finally show ?thesis
    using run by (simp add: fieldOptionsUnion_def)
qed

text \<open>
  C8. \<open>orderedList\<close>, \<open>fieldOptionsUnion\<close> and \<open>deduplicateOptions\<close> do not mutate
  their input arrays or the objects in them: whatever the arguments are, every array and
  object that exists before the call has the same content after it, also when the call
  ends in an error. All writes go to objects that the call itself has created.
\<close>

theorem inputs_not_mutated:
  "unchanged s (snd (orderedList_st list1 list2 s)) \<and>
   unchanged s (snd (fieldOptionsUnion_st options1 options2 s)) \<and>
   unchanged s (snd (deduplicateOptions_st options s))"
  using orderedList_st_extends[of s list1 list2]
    fieldOptionsUnion_st_extends[of s options1 options2]
    deduplicateOptions_st_extends[of s options]
  by (simp add: extends_def)

theorem inputs_not_mutated_witness:
  "(0::nat) < limit
     \<lparr>string_arrays = (\<lambda>a. [])(0 := [''b'', '''', ''a'']), entry_arrays = (\<lambda>a. []),
      option_objects = (\<lambda>a. \<lparr>opt_value = [], opt_label = []\<rparr>), count_maps = (\<lambda>a. Map.empty),
      value_sets = (\<lambda>a. {}), keyed_objects = (\<lambda>a. []), limit = 1\<rparr> \<and>
   string_arrays (snd (orderedList_st (RArray 0) (RArray 0)
     \<lparr>string_arrays = (\<lambda>a. [])(0 := [''b'', '''', ''a'']), entry_arrays = (\<lambda>a. []),
      option_objects = (\<lambda>a. \<lparr>opt_value = [], opt_label = []\<rparr>), count_maps = (\<lambda>a. Map.empty),
      value_sets = (\<lambda>a. {}), keyed_objects = (\<lambda>a. []), limit = 1\<rparr>)) 0 = [''b'', '''', ''a'']"
  using inputs_not_mutated[of
      "\<lparr>string_arrays = (\<lambda>a. [])(0 := [''b'', '''', ''a'']), entry_arrays = (\<lambda>a. []),
        option_objects = (\<lambda>a. \<lparr>opt_value = [], opt_label = []\<rparr>), count_maps = (\<lambda>a. Map.empty),
        value_sets = (\<lambda>a. {}), keyed_objects = (\<lambda>a. []), limit = 1\<rparr>"
      "RArray 0" "RArray 0" RNull RNull RNull]
  by (simp add: unchanged_def same_at_def)

end
